theory Spec2Isabelle
  imports Main "HOL-Library.Char_ord" "HOL-Library.List_Lexorder"
begin

section \<open>Values and objects\<close>

text \<open>
  The library (\<^verbatim>\<open>build/idb.js\<close>) adapts the event-driven IndexedDB interface to promises
  and proxies. Its behaviour rests on object identity (four \<^verbatim>\<open>WeakMap\<close>s), on \<^verbatim>\<open>Proxy\<close>
  handlers, on event listeners and on promises, so the embedding makes each of them explicit.

  A JavaScript value is a primitive, a raw object of the storage engine, a function of the
  engine (or of the caller), or an object this module allocates. A \<^verbatim>\<open>Proxy\<close> never changes
  its target or handler and a function created by this module never changes what it closed
  over, so both carry these data in the value and are told apart by the allocation number.
  Promises change state and live in a table of the state.
\<close>

datatype kind =
  IDBDatabase | IDBObjectStore | IDBIndex | IDBCursor | IDBTransaction | IDBRequest | OtherObject

datatype propkey = Name string | AsyncIterator | OtherSymbol nat

text \<open>
  \<^verbatim>\<open>idbProxyTraps\<close> is a chain of handler objects: the base handler, and one layer for each
  \<^verbatim>\<open>addTraps(oldTraps => ...)\<close> call, which keeps the handler it replaced.
\<close>

datatype trapset = BaseTraps | DatabaseExtras trapset | IteratorSupport trapset

datatype handler = IdbProxyTraps trapset | CursorIteratorTraps

datatype val =
    Undefined | Null | NaN | Bool bool | Num int | Str string
  | Handle kind nat
  | Fn string
  | Promise nat
  | Proxy nat val handler
  | Func nat closure
and closure =
    WrappedFunction val
  | WrappedAdvance val
  | ReadMethod string
  | WriteMethod string
  | IterateFn
  | FacadeAdvance string

text \<open>What a call or a listener throws: a \<^verbatim>\<open>TypeError\<close> of the language, a value thrown
  by the storage engine, or a path this embedding does not follow.\<close>

datatype exn = TypeError | Thrown val | OutOfModel

datatype pstate = Pending | Fulfilled val | Rejected val

text \<open>The callback of \<^verbatim>\<open>promise.then\<close> in \<^verbatim>\<open>promisifyRequest\<close>, closed over the request.\<close>

datatype reaction = CacheCursorRequest val

text \<open>The event listeners this module registers, each closed over its promise and target.\<close>

datatype callback =
    RequestSuccess nat val
  | RequestError nat val
  | TxComplete nat val
  | TxError nat val

text \<open>
  The storage engine is outside the module. Its state is a type parameter and the module
  reaches it through property reads, membership tests and calls of raw functions.
\<close>

record 'n engine =
  native_get :: "'n \<Rightarrow> val \<Rightarrow> propkey \<Rightarrow> val"
  native_in :: "'n \<Rightarrow> val \<Rightarrow> propkey \<Rightarrow> bool"
  native_apply :: "val \<Rightarrow> val \<Rightarrow> val list \<Rightarrow> 'n \<Rightarrow> (val + val) \<times> 'n"
  objectStoreNames :: "'n \<Rightarrow> val \<Rightarrow> string list"

record 'n state =
  native :: 'n
  next_id :: nat
  promises :: "nat \<rightharpoonup> pstate \<times> reaction list"
  listeners :: "(val \<times> string \<times> callback) list"
  microtasks :: "(reaction \<times> val) list"
  idbProxyTraps :: trapset
  cursorRequestMap :: "val \<rightharpoonup> val"
  transactionDoneMap :: "val \<rightharpoonup> val"
  transformCache :: "val \<rightharpoonup> val"
  reverseTransformCache :: "val \<rightharpoonup> val"
  cachedMethods :: "string \<rightharpoonup> val"
  methodMap :: "string \<rightharpoonup> val"
  advanceResults :: "val \<rightharpoonup> val"
  proxiedCursorToOriginal :: "val \<rightharpoonup> val"

subsection \<open>Language primitives\<close>

text \<open>\<^verbatim>\<open>object instanceof c\<close>: a proxy without a \<^verbatim>\<open>getPrototypeOf\<close> trap answers for its target.\<close>

fun instanceOf :: "val \<Rightarrow> kind \<Rightarrow> bool" where
  "instanceOf (Handle k i) c = (k = c)"
| "instanceOf (Proxy i t h) c = instanceOf t c"
| "instanceOf _ c = False"

definition instanceOfAny :: "val \<Rightarrow> kind list \<Rightarrow> bool" where
  "instanceOfAny object constructors = list_ex (\<lambda>c. instanceOf object c) constructors"

fun is_function :: "val \<Rightarrow> bool" where
  "is_function (Fn f) = True"
| "is_function (Func i c) = True"
| "is_function (Proxy i t h) = is_function t"
| "is_function _ = False"

fun is_object :: "val \<Rightarrow> bool" where
  "is_object (Handle k i) = True"
| "is_object (Fn f) = True"
| "is_object (Promise p) = True"
| "is_object (Proxy i t h) = True"
| "is_object (Func i c) = True"
| "is_object _ = False"

fun is_raw :: "val \<Rightarrow> bool" where
  "is_raw (Handle k i) = True"
| "is_raw _ = False"

fun truthy :: "val \<Rightarrow> bool" where
  "truthy Undefined = False"
| "truthy Null = False"
| "truthy NaN = False"
| "truthy (Bool b) = b"
| "truthy (Num n) = (n \<noteq> 0)"
| "truthy (Str s) = (s \<noteq> [])"
| "truthy _ = True"

text \<open>\<^verbatim>\<open>a !== b\<close>: identity on objects, equality on primitives, and \<^verbatim>\<open>NaN !== NaN\<close>.\<close>

definition strict_neq :: "val \<Rightarrow> val \<Rightarrow> bool" where
  "strict_neq a b = (a \<noteq> b \<or> a = NaN)"

text \<open>\<^verbatim>\<open>WeakMap\<close>: \<^verbatim>\<open>has\<close> and \<^verbatim>\<open>get\<close> answer false and \<^verbatim>\<open>undefined\<close> for a key that is
  absent or not an object; \<^verbatim>\<open>set\<close> throws a \<^verbatim>\<open>TypeError\<close> for a key that is not an object.\<close>

definition weak_has :: "(val \<rightharpoonup> val) \<Rightarrow> val \<Rightarrow> bool" where
  "weak_has m k = (is_object k \<and> m k \<noteq> None)"

definition weak_get :: "(val \<rightharpoonup> val) \<Rightarrow> val \<Rightarrow> val" where
  "weak_get m k = (if is_object k then (case m k of None \<Rightarrow> Undefined | Some v \<Rightarrow> v) else Undefined)"

definition weak_set :: "(val \<rightharpoonup> val) \<Rightarrow> val \<Rightarrow> val \<Rightarrow> exn + (val \<rightharpoonup> val)" where
  "weak_set m k v = (if is_object k then Inr (m(k \<mapsto> v)) else Inl TypeError)"

text \<open>\<^verbatim>\<open>list[i]\<close> on a \<^verbatim>\<open>DOMStringList\<close>: \<^verbatim>\<open>undefined\<close> beyond the end.\<close>

definition item :: "string list \<Rightarrow> nat \<Rightarrow> val" where
  "item names i = (if i < length names then Str (names ! i) else Undefined)"

subsection \<open>Event targets and promises\<close>

text \<open>\<^verbatim>\<open>addEventListener\<close> ignores a listener already registered for the type;
  \<^verbatim>\<open>removeEventListener\<close> drops it.\<close>

definition addEventListener :: "val \<Rightarrow> string \<Rightarrow> callback \<Rightarrow> 'n state \<Rightarrow> 'n state" where
  "addEventListener target type cb s =
     (if (target, type, cb) \<in> set (listeners s) then s
      else s\<lparr>listeners := listeners s @ [(target, type, cb)]\<rparr>)"

definition removeEventListener :: "val \<Rightarrow> string \<Rightarrow> callback \<Rightarrow> 'n state \<Rightarrow> 'n state" where
  "removeEventListener target type cb s =
     s\<lparr>listeners := filter (\<lambda>l. l \<noteq> (target, type, cb)) (listeners s)\<rparr>"

text \<open>Settling a promise: only a pending promise changes, and its \<^verbatim>\<open>then\<close> callbacks
  are queued as microtasks with the value.\<close>

definition resolve :: "nat \<Rightarrow> val \<Rightarrow> 'n state \<Rightarrow> 'n state" where
  "resolve p v s =
     (case promises s p of
        Some (Pending, rs) \<Rightarrow>
          s\<lparr>promises := (promises s)(p \<mapsto> (Fulfilled v, [])),
            microtasks := microtasks s @ map (\<lambda>r. (r, v)) rs\<rparr>
      | _ \<Rightarrow> s)"

definition reject :: "nat \<Rightarrow> val \<Rightarrow> 'n state \<Rightarrow> 'n state" where
  "reject p e s =
     (case promises s p of
        Some (Pending, rs) \<Rightarrow> s\<lparr>promises := (promises s)(p \<mapsto> (Rejected e, []))\<rparr>
      | _ \<Rightarrow> s)"

definition promise_then :: "nat \<Rightarrow> reaction \<Rightarrow> 'n state \<Rightarrow> 'n state" where
  "promise_then p r s =
     (case promises s p of
        Some (Pending, rs) \<Rightarrow> s\<lparr>promises := (promises s)(p \<mapsto> (Pending, rs @ [r]))\<rparr>
      | Some (Fulfilled v, rs) \<Rightarrow> s\<lparr>microtasks := microtasks s @ [(r, v)]\<rparr>
      | _ \<Rightarrow> s)"

section \<open>The wrapping layer\<close>

definition getIdbProxyableTypes :: "kind list" where
  "getIdbProxyableTypes = [IDBDatabase, IDBObjectStore, IDBIndex, IDBCursor, IDBTransaction]"

definition getCursorAdvanceMethods :: "val list" where
  "getCursorAdvanceMethods =
     [Fn ''IDBCursor.prototype.advance'',
      Fn ''IDBCursor.prototype.continue'',
      Fn ''IDBCursor.prototype.continuePrimaryKey'']"

text \<open>
  \<^verbatim>\<open>promisifyRequest\<close>: a new promise, a \<^verbatim>\<open>success\<close> and an \<^verbatim>\<open>error\<close> listener on the
  request, the \<^verbatim>\<open>then\<close> callback that records the request of a cursor, and the entry
  promise \<open>\<mapsto>\<close> request in \<^verbatim>\<open>reverseTransformCache\<close>. The listeners are registered on the
  raw request; a request reached through a proxy is not followed.
\<close>

definition promisifyRequest :: "val \<Rightarrow> 'n state \<Rightarrow> (exn + val) \<times> 'n state" where
  "promisifyRequest request s =
     (if \<not> is_raw request then (Inl OutOfModel, s)
      else
        let p = next_id s;
            s1 = s\<lparr>next_id := Suc p, promises := (promises s)(p \<mapsto> (Pending, []))\<rparr>;
            s2 = addEventListener request ''success'' (RequestSuccess p request) s1;
            s3 = addEventListener request ''error'' (RequestError p request) s2;
            s4 = promise_then p (CacheCursorRequest request) s3
        in (Inr (Promise p),
            s4\<lparr>reverseTransformCache := (reverseTransformCache s4)(Promise p \<mapsto> request)\<rparr>))"

text \<open>\<^verbatim>\<open>cacheDonePromiseForTransaction\<close>: nothing when the transaction has a done promise;
  else a new promise with a \<^verbatim>\<open>complete\<close> listener and one listener for \<^verbatim>\<open>error\<close> and
  \<^verbatim>\<open>abort\<close>, recorded in \<^verbatim>\<open>transactionDoneMap\<close>.\<close>

definition cacheDonePromiseForTransaction :: "val \<Rightarrow> 'n state \<Rightarrow> (exn + unit) \<times> 'n state" where
  "cacheDonePromiseForTransaction tx s =
     (if weak_has (transactionDoneMap s) tx then (Inr (), s)
      else if \<not> is_raw tx then (Inl OutOfModel, s)
      else
        let p = next_id s;
            s1 = s\<lparr>next_id := Suc p, promises := (promises s)(p \<mapsto> (Pending, []))\<rparr>;
            s2 = addEventListener tx ''complete'' (TxComplete p tx) s1;
            s3 = addEventListener tx ''error'' (TxError p tx) s2;
            s4 = addEventListener tx ''abort'' (TxError p tx) s3
        in (Inr (), s4\<lparr>transactionDoneMap := (transactionDoneMap s4)(tx \<mapsto> Promise p)\<rparr>))"

text \<open>\<^verbatim>\<open>wrapFunction\<close>: a new function for the raw one, of the cursor-advance shape when the
  raw function is one of the three advance methods.\<close>

definition wrapFunction :: "val \<Rightarrow> 'n state \<Rightarrow> val \<times> 'n state" where
  "wrapFunction func s =
     (if func \<in> set getCursorAdvanceMethods
      then (Func (next_id s) (WrappedAdvance func), s\<lparr>next_id := Suc (next_id s)\<rparr>)
      else (Func (next_id s) (WrappedFunction func), s\<lparr>next_id := Suc (next_id s)\<rparr>))"

definition transformCachableValue :: "val \<Rightarrow> 'n state \<Rightarrow> (exn + val) \<times> 'n state" where
  "transformCachableValue v s =
     (if is_function v then (case wrapFunction v s of (f, s1) \<Rightarrow> (Inr f, s1))
      else
        case (if instanceOf v IDBTransaction then cacheDonePromiseForTransaction v s
              else (Inr (), s)) of
          (Inl e, s1) \<Rightarrow> (Inl e, s1)
        | (Inr u, s1) \<Rightarrow>
            if instanceOfAny v getIdbProxyableTypes
            then (Inr (Proxy (next_id s1) v (IdbProxyTraps (idbProxyTraps s1))),
                  s1\<lparr>next_id := Suc (next_id s1)\<rparr>)
            else (Inr v, s1))"

definition wrap :: "val \<Rightarrow> 'n state \<Rightarrow> (exn + val) \<times> 'n state" where
  "wrap v s =
     (if instanceOf v IDBRequest then promisifyRequest v s
      else if weak_has (transformCache s) v then (Inr (weak_get (transformCache s) v), s)
      else
        case transformCachableValue v s of
          (Inl e, s1) \<Rightarrow> (Inl e, s1)
        | (Inr newValue, s1) \<Rightarrow>
            if strict_neq newValue v then
              (case weak_set (transformCache s1) v newValue of
                 Inl e \<Rightarrow> (Inl e, s1)
               | Inr tc \<Rightarrow>
                   (case weak_set (reverseTransformCache s1) newValue v of
                      Inl e \<Rightarrow> (Inl e, s1\<lparr>transformCache := tc\<rparr>)
                    | Inr rc \<Rightarrow>
                        (Inr newValue, s1\<lparr>transformCache := tc, reverseTransformCache := rc\<rparr>)))
            else (Inr newValue, s1))"

definition unwrap :: "val \<Rightarrow> 'n state \<Rightarrow> val" where
  "unwrap v s = weak_get (reverseTransformCache s) v"


section \<open>Calling wrapped functions\<close>

definition apply_raw :: "'n engine \<Rightarrow> val \<Rightarrow> val \<Rightarrow> val list \<Rightarrow> 'n state \<Rightarrow> (exn + val) \<times> 'n state" where
  "apply_raw E func this args s =
     (case native_apply E func this args (native s) of
        (Inl e, n) \<Rightarrow> (Inl (Thrown e), s\<lparr>native := n\<rparr>)
      | (Inr v, n) \<Rightarrow> (Inr v, s\<lparr>native := n\<rparr>))"

text \<open>
  Calling a function value. A raw function is applied by the engine. The two functions of
  \<^verbatim>\<open>wrapFunction\<close> unwrap \<^verbatim>\<open>this\<close> and apply the function they wrap to it; the ordinary
  one wraps the result, the cursor-advance one discards it and wraps the request recorded
  for \<^verbatim>\<open>this\<close> in \<^verbatim>\<open>cursorRequestMap\<close>. The other functions of this module are called by
  \<open>call\<close> below. Calling a value that is not a function is a \<^verbatim>\<open>TypeError\<close>.
\<close>

fun invoke :: "'n engine \<Rightarrow> val \<Rightarrow> val \<Rightarrow> val list \<Rightarrow> 'n state \<Rightarrow> (exn + val) \<times> 'n state" where
  "invoke E (Fn f) this args s = apply_raw E (Fn f) this args s"
| "invoke E (Func i (WrappedFunction func)) this args s =
     (case invoke E func (unwrap this s) args s of
        (Inl e, s1) \<Rightarrow> (Inl e, s1)
      | (Inr v, s1) \<Rightarrow> wrap v s1)"
| "invoke E (Func i (WrappedAdvance func)) this args s =
     (case invoke E func (unwrap this s) args s of
        (Inl e, s1) \<Rightarrow> (Inl e, s1)
      | (Inr v, s1) \<Rightarrow> wrap (weak_get (cursorRequestMap s1) this) s1)"
| "invoke E (Func i c) this args s = (Inl OutOfModel, s)"
| "invoke E (Proxy i t h) this args s = (Inl OutOfModel, s)"
| "invoke E v this args s = (Inl TypeError, s)"

section \<open>The proxy handlers\<close>

definition readMethods :: "string list" where
  "readMethods =
     [''get'', ''getKey'', ''getAll'', ''getAllKeys'', ''count''] @
     map (\<lambda>n. n @ ''FromIndex'') [''get'', ''getKey'', ''getAll'', ''getAllKeys'', ''count'']"

definition writeMethods :: "string list" where
  "writeMethods = [''put'', ''add'', ''delete'', ''clear'']"

definition advanceMethodProps :: "string list" where
  "advanceMethodProps = [''continue'', ''continuePrimaryKey'', ''advance'']"

fun js_includes :: "string list \<Rightarrow> propkey \<Rightarrow> bool" where
  "js_includes names (Name p) = (p \<in> set names)"
| "js_includes names _ = False"

fun is_string :: "propkey \<Rightarrow> bool" where
  "is_string (Name p) = True"
| "is_string _ = False"

text \<open>The one \<^verbatim>\<open>iterate\<close> function of the module.\<close>

definition iterate :: val where
  "iterate = Func 0 IterateFn"

definition isIteratorProp :: "val \<Rightarrow> propkey \<Rightarrow> bool" where
  "isIteratorProp target prop =
     ((prop = AsyncIterator \<and> instanceOfAny target [IDBIndex, IDBObjectStore, IDBCursor]) \<or>
      (prop = Name ''iterate'' \<and> instanceOfAny target [IDBIndex, IDBObjectStore]))"

text \<open>\<^verbatim>\<open>potentialDatabaseExtra\<close>; the third argument is the outcome of \<^verbatim>\<open>prop in target\<close>,
  read only when the target is a database.\<close>

definition potentialDatabaseExtra :: "val \<Rightarrow> propkey \<Rightarrow> exn + bool \<Rightarrow> exn + bool" where
  "potentialDatabaseExtra target prop in_target =
     (if \<not> instanceOf target IDBDatabase then Inr False
      else case in_target of
             Inl e \<Rightarrow> Inl e
           | Inr b \<Rightarrow> Inr (\<not> b \<and> is_string prop))"

fun tsz :: "trapset \<Rightarrow> nat" where
  "tsz BaseTraps = 0"
| "tsz (DatabaseExtras old) = Suc (tsz old)"
| "tsz (IteratorSupport old) = Suc (tsz old)"

fun hsz :: "handler \<Rightarrow> nat" where
  "hsz (IdbProxyTraps ts) = Suc (tsz ts)"
| "hsz CursorIteratorTraps = 0"

fun depth :: "val \<Rightarrow> nat" where
  "depth (Proxy i t h) = Suc (depth t + hsz h)"
| "depth v = 0"

text \<open>
  \<^verbatim>\<open>prop in v\<close>. A raw object answers by the engine, a proxy of this module by the
  \<^verbatim>\<open>has\<close> trap of its handler chain, the cursor facade of \<^verbatim>\<open>iterate\<close> (whose handler has
  no \<^verbatim>\<open>has\<close> trap) by its target.
\<close>

function js_has :: "'n engine \<Rightarrow> 'n \<Rightarrow> val \<Rightarrow> propkey \<Rightarrow> exn + bool"
  and traps_has :: "'n engine \<Rightarrow> 'n \<Rightarrow> trapset \<Rightarrow> val \<Rightarrow> propkey \<Rightarrow> exn + bool" where
  "js_has E n (Handle k i) prop = Inr (native_in E n (Handle k i) prop)"
| "js_has E n (Proxy i t (IdbProxyTraps ts)) prop = traps_has E n ts t prop"
| "js_has E n (Proxy i t CursorIteratorTraps) prop = js_has E n t prop"
| "js_has E n (Fn f) prop = Inl OutOfModel"
| "js_has E n (Promise p) prop = Inl OutOfModel"
| "js_has E n (Func i c) prop = Inl OutOfModel"
| "js_has E n Undefined prop = Inl TypeError"
| "js_has E n Null prop = Inl TypeError"
| "js_has E n NaN prop = Inl TypeError"
| "js_has E n (Bool b) prop = Inl TypeError"
| "js_has E n (Num x) prop = Inl TypeError"
| "js_has E n (Str x) prop = Inl TypeError"
| "traps_has E n (IteratorSupport oldTraps) target prop =
     (if isIteratorProp target prop then Inr True else traps_has E n oldTraps target prop)"
| "traps_has E n (DatabaseExtras oldTraps) target prop =
     (case potentialDatabaseExtra target prop (js_has E n target prop) of
        Inl e \<Rightarrow> Inl e
      | Inr b \<Rightarrow>
          if b \<and> (js_includes readMethods prop \<or> js_includes writeMethods prop) then Inr True
          else traps_has E n oldTraps target prop)"
| "traps_has E n BaseTraps target prop =
     (if instanceOf target IDBTransaction \<and> (prop = Name ''done'' \<or> prop = Name ''store'')
      then Inr True
      else js_has E n target prop)"
  by pat_completeness auto
termination
  by (relation "measure (\<lambda>x. case x of
         Inl (E, n, v, prop) \<Rightarrow> 2 * depth v
       | Inr (E, n, ts, t, prop) \<Rightarrow> 2 * depth t + 1 + tsz ts)") auto

text \<open>\<^verbatim>\<open>getMethod\<close>: a new function for a read or a write method name, else \<^verbatim>\<open>undefined\<close>.\<close>

definition getMethod :: "string \<Rightarrow> 'n state \<Rightarrow> val \<times> 'n state" where
  "getMethod prop s =
     (if prop \<in> set readMethods
      then (Func (next_id s) (ReadMethod prop), s\<lparr>next_id := Suc (next_id s)\<rparr>)
      else if prop \<in> set writeMethods
      then (Func (next_id s) (WriteMethod prop), s\<lparr>next_id := Suc (next_id s)\<rparr>)
      else (Undefined, s))"

definition map_get :: "(string \<rightharpoonup> val) \<Rightarrow> string \<Rightarrow> val" where
  "map_get m k = (case m k of None \<Rightarrow> Undefined | Some v \<Rightarrow> v)"

fun store_flag :: "propkey \<Rightarrow> nat" where
  "store_flag prop = (if prop = Name ''store'' then 1 else 0)"

text \<open>
  \<^verbatim>\<open>v[prop]\<close>. \<open>js_get\<close> dispatches on the object: the engine for a raw object, the
  \<^verbatim>\<open>get\<close> trap of \<^verbatim>\<open>cursorIteratorTraps\<close> for the facade of \<^verbatim>\<open>iterate\<close>, the handler chain
  for a proxy of this module. \<open>traps_get\<close> is the \<^verbatim>\<open>get\<close> trap of each layer of the chain, in
  the order of the source: the iteration layer, the database extras, the base handler.
\<close>

function js_get :: "'n engine \<Rightarrow> val \<Rightarrow> propkey \<Rightarrow> 'n state \<Rightarrow> (exn + val) \<times> 'n state"
  and traps_get ::
    "'n engine \<Rightarrow> trapset \<Rightarrow> val \<Rightarrow> propkey \<Rightarrow> val \<Rightarrow> 'n state \<Rightarrow> (exn + val) \<times> 'n state" where
  "js_get E (Handle k i) prop s = (Inr (native_get E (native s) (Handle k i) prop), s)"
| "js_get E (Proxy i t (IdbProxyTraps ts)) prop s =
     traps_get E ts t prop (Proxy i t (IdbProxyTraps ts)) s"
| "js_get E (Proxy i t CursorIteratorTraps) prop s =
     (if \<not> js_includes advanceMethodProps prop then js_get E t prop s
      else (case prop of
              Name p \<Rightarrow>
                (if \<not> truthy (map_get (methodMap s) p)
                 then (Inr (Func (next_id s) (FacadeAdvance p)),
                       s\<lparr>next_id := Suc (next_id s),
                         methodMap := (methodMap s)(p \<mapsto> Func (next_id s) (FacadeAdvance p))\<rparr>)
                 else (Inr (map_get (methodMap s) p), s))
            | _ \<Rightarrow> (Inl OutOfModel, s)))"
| "js_get E (Fn f) prop s = (Inl OutOfModel, s)"
| "js_get E (Promise p) prop s = (Inl OutOfModel, s)"
| "js_get E (Func i c) prop s = (Inl OutOfModel, s)"
| "js_get E Undefined prop s = (Inl TypeError, s)"
| "js_get E Null prop s = (Inl TypeError, s)"
| "js_get E NaN prop s = (Inl OutOfModel, s)"
| "js_get E (Bool b) prop s = (Inl OutOfModel, s)"
| "js_get E (Num x) prop s = (Inl OutOfModel, s)"
| "js_get E (Str x) prop s = (Inl OutOfModel, s)"
| "traps_get E (IteratorSupport oldTraps) target prop receiver s =
     (if isIteratorProp target prop then (Inr iterate, s)
      else traps_get E oldTraps target prop receiver s)"
| "traps_get E (DatabaseExtras oldTraps) target prop receiver s =
     (case potentialDatabaseExtra target prop (js_has E (native s) target prop) of
        Inl e \<Rightarrow> (Inl e, s)
      | Inr b \<Rightarrow>
          if \<not> b then traps_get E oldTraps target prop receiver s
          else
            (case prop of
               Name p \<Rightarrow>
                 (if truthy (map_get (cachedMethods s) p)
                  then (Inr (map_get (cachedMethods s) p), s)
                  else if truthy (fst (getMethod p s))
                  then (Inr (fst (getMethod p s)),
                        (snd (getMethod p s))
                          \<lparr>cachedMethods := (cachedMethods s)(p \<mapsto> fst (getMethod p s))\<rparr>)
                  else traps_get E oldTraps target prop receiver (snd (getMethod p s)))
             | _ \<Rightarrow> traps_get E oldTraps target prop receiver s))"
| "traps_get E BaseTraps target prop receiver s =
     (if instanceOf target IDBTransaction \<and> prop = Name ''done''
      then (Inr (weak_get (transactionDoneMap s) target), s)
      else if instanceOf target IDBTransaction \<and> prop = Name ''store''
      then
        (if \<not> is_raw target then (Inl OutOfModel, s)
         else if truthy (item (objectStoreNames E (native s) target) 1) then (Inr Undefined, s)
         else
           case js_get E receiver (Name ''objectStore'') s of
             (Inl e, s1) \<Rightarrow> (Inl e, s1)
           | (Inr f, s1) \<Rightarrow>
               invoke E f receiver [item (objectStoreNames E (native s) target) 0] s1)
      else
        case js_get E target prop s of
          (Inl e, s1) \<Rightarrow> (Inl e, s1)
        | (Inr v, s1) \<Rightarrow> wrap v s1)"
  by pat_completeness auto
termination
  by (relation "inv_image (less_than <*lex*> less_than) (\<lambda>x. case x of
         Inl (E, v, prop, s) \<Rightarrow> (store_flag prop, 2 * depth v)
       | Inr (E, ts, t, prop, r, s) \<Rightarrow> (store_flag prop, 2 * depth t + 1 + tsz ts))") auto

text \<open>\<^verbatim>\<open>addTraps(callback)\<close>: the callback receives the current handler and returns the
  new one.\<close>

definition addTraps :: "(trapset \<Rightarrow> trapset) \<Rightarrow> 'n state \<Rightarrow> 'n state" where
  "addTraps callback s = s\<lparr>idbProxyTraps := callback (idbProxyTraps s)\<rparr>"

text \<open>The state once the module is loaded: empty caches, the \<^verbatim>\<open>iterate\<close> function
  allocated, and the two \<^verbatim>\<open>addTraps\<close> calls of \<^verbatim>\<open>build/idb.js\<close> done in their order.\<close>

definition empty_state :: "'n \<Rightarrow> 'n state" where
  "empty_state n =
     \<lparr>native = n, next_id = 1, promises = Map.empty, listeners = [], microtasks = [],
      idbProxyTraps = BaseTraps,
      cursorRequestMap = Map.empty, transactionDoneMap = Map.empty,
      transformCache = Map.empty, reverseTransformCache = Map.empty,
      cachedMethods = Map.empty, methodMap = Map.empty,
      advanceResults = Map.empty, proxiedCursorToOriginal = Map.empty\<rparr>"

definition init :: "'n \<Rightarrow> 'n state" where
  "init n = addTraps IteratorSupport (addTraps DatabaseExtras (empty_state n))"


section \<open>The convenience methods of a database\<close>

text \<open>\<^verbatim>\<open>obj[prop](...args)\<close>: the property is read on the object, the function found is
  called with the object as \<^verbatim>\<open>this\<close>.\<close>

definition call_method ::
  "'n engine \<Rightarrow> val \<Rightarrow> propkey \<Rightarrow> val list \<Rightarrow> 'n state \<Rightarrow> (exn + val) \<times> 'n state" where
  "call_method E obj prop args s =
     (case js_get E obj prop s of
        (Inl e, s1) \<Rightarrow> (Inl e, s1)
      | (Inr f, s1) \<Rightarrow> invoke E f obj args s1)"

definition endsWith :: "string \<Rightarrow> string \<Rightarrow> bool" where
  "endsWith str suffix =
     (length suffix \<le> length str \<and> drop (length str - length suffix) str = suffix)"

text \<open>\<^verbatim>\<open>str.slice(0, -k)\<close>\<close>

definition slice_end :: "string \<Rightarrow> nat \<Rightarrow> string" where
  "slice_end str k = take (length str - k) str"

text \<open>\<^verbatim>\<open>args.shift()\<close> and the first parameter of \<^verbatim>\<open>function (storeName, ...args)\<close>:
  \<^verbatim>\<open>undefined\<close> when there is no argument.\<close>

fun first_arg :: "val list \<Rightarrow> val" where
  "first_arg [] = Undefined"
| "first_arg (a # as) = a"

text \<open>The function \<^verbatim>\<open>getMethod(prop)\<close> returns for a read method.\<close>

definition read_method ::
  "'n engine \<Rightarrow> string \<Rightarrow> val \<Rightarrow> val list \<Rightarrow> 'n state \<Rightarrow> (exn + val) \<times> 'n state" where
  "read_method E prop this arglist s =
     (let storeName = first_arg arglist;
          args = drop 1 arglist;
          isIndex = endsWith prop ''FromIndex'';
          indexName = (if isIndex then first_arg args else Str []);
          args' = (if isIndex then drop 1 args else args);
          targetFuncName = (if isIndex then slice_end prop 9 else prop)
      in case call_method E this (Name ''transaction'') [storeName] s of
           (Inl e, s1) \<Rightarrow> (Inl e, s1)
         | (Inr tx, s1) \<Rightarrow>
             (case js_get E tx (Name ''store'') s1 of
                (Inl e, s2) \<Rightarrow> (Inl e, s2)
              | (Inr target, s2) \<Rightarrow>
                  (case (if truthy indexName
                         then call_method E target (Name ''index'') [indexName] s2
                         else (Inr target, s2)) of
                     (Inl e, s3) \<Rightarrow> (Inl e, s3)
                   | (Inr target', s3) \<Rightarrow>
                       call_method E target' (Name targetFuncName) args' s3)))"

text \<open>The function \<^verbatim>\<open>getMethod(prop)\<close> returns for a write method.\<close>

definition write_method ::
  "'n engine \<Rightarrow> string \<Rightarrow> val \<Rightarrow> val list \<Rightarrow> 'n state \<Rightarrow> (exn + val) \<times> 'n state" where
  "write_method E prop this arglist s =
     (let storeName = first_arg arglist;
          args = drop 1 arglist
      in case call_method E this (Name ''transaction'') [storeName, Str ''readwrite''] s of
           (Inl e, s1) \<Rightarrow> (Inl e, s1)
         | (Inr tx, s1) \<Rightarrow>
             (case js_get E tx (Name ''store'') s1 of
                (Inl e, s2) \<Rightarrow> (Inl e, s2)
              | (Inr st, s2) \<Rightarrow>
                  (case call_method E st (Name prop) args s2 of
                     (Inl e, s3) \<Rightarrow> (Inl e, s3)
                   | (Inr r, s3) \<Rightarrow> js_get E tx (Name ''done'') s3)))"

text \<open>The function \<^verbatim>\<open>methodMap[prop]\<close> of the cursor facade: it records what the advance
  method of the original cursor returns, and returns nothing.\<close>

definition facade_advance ::
  "'n engine \<Rightarrow> string \<Rightarrow> val \<Rightarrow> val list \<Rightarrow> 'n state \<Rightarrow> (exn + val) \<times> 'n state" where
  "facade_advance E prop this args s =
     (case call_method E (weak_get (proxiedCursorToOriginal s) this) (Name prop) args s of
        (Inl e, s1) \<Rightarrow> (Inl e, s1)
      | (Inr r, s1) \<Rightarrow>
          (case weak_set (advanceResults s1) this r of
             Inl e \<Rightarrow> (Inl e, s1)
           | Inr m \<Rightarrow> (Inr Undefined, s1\<lparr>advanceResults := m\<rparr>)))"

text \<open>Calling any function value. A call of \<^verbatim>\<open>iterate\<close> creates a generator, which is
  followed by \<open>gen_step\<close> below and not as an object.\<close>

fun call :: "'n engine \<Rightarrow> val \<Rightarrow> val \<Rightarrow> val list \<Rightarrow> 'n state \<Rightarrow> (exn + val) \<times> 'n state" where
  "call E (Func i (ReadMethod prop)) this args s = read_method E prop this args s"
| "call E (Func i (WriteMethod prop)) this args s = write_method E prop this args s"
| "call E (Func i (FacadeAdvance prop)) this args s = facade_advance E prop this args s"
| "call E (Func i IterateFn) this args s = (Inl OutOfModel, s)"
| "call E f this args s = invoke E f this args s"

text \<open>
  What the specification says an index-scoped read is: a read-only transaction on the
  store, the named index of its store, and the base method called on the index with the
  remaining arguments. It follows the words of the specification, not \<^verbatim>\<open>getMethod\<close>.
\<close>

definition index_read_spec ::
  "'n engine \<Rightarrow> string \<Rightarrow> val \<Rightarrow> val \<Rightarrow> val \<Rightarrow> val list \<Rightarrow> 'n state \<Rightarrow> (exn + val) \<times> 'n state" where
  "index_read_spec E base db storeName indexName rest s =
     (case call_method E db (Name ''transaction'') [storeName] s of
        (Inl e, s1) \<Rightarrow> (Inl e, s1)
      | (Inr tx, s1) \<Rightarrow>
          (case js_get E tx (Name ''store'') s1 of
             (Inl e, s2) \<Rightarrow> (Inl e, s2)
           | (Inr st, s2) \<Rightarrow>
               (case call_method E st (Name ''index'') [indexName] s2 of
                  (Inl e, s3) \<Rightarrow> (Inl e, s3)
                | (Inr idx, s3) \<Rightarrow> call_method E idx (Name base) rest s3)))"

section \<open>Events and microtasks\<close>

text \<open>The \<^verbatim>\<open>then\<close> callback of \<^verbatim>\<open>promisifyRequest\<close>.\<close>

fun run_reaction :: "reaction \<Rightarrow> val \<Rightarrow> 'n state \<Rightarrow> 'n state" where
  "run_reaction (CacheCursorRequest request) v s =
     (if instanceOf v IDBCursor
      then s\<lparr>cursorRequestMap := (cursorRequestMap s)(v \<mapsto> request)\<rparr>
      else s)"

definition run_microtasks :: "'n state \<Rightarrow> 'n state" where
  "run_microtasks s =
     foldl (\<lambda>s' (r, v). run_reaction r v s') (s\<lparr>microtasks := []\<rparr>) (microtasks s)"

definition unlisten_request :: "nat \<Rightarrow> val \<Rightarrow> 'n state \<Rightarrow> 'n state" where
  "unlisten_request p request s =
     removeEventListener request ''error'' (RequestError p request)
       (removeEventListener request ''success'' (RequestSuccess p request) s)"

definition unlisten_tx :: "nat \<Rightarrow> val \<Rightarrow> 'n state \<Rightarrow> 'n state" where
  "unlisten_tx p tx s =
     removeEventListener tx ''abort'' (TxError p tx)
       (removeEventListener tx ''error'' (TxError p tx)
          (removeEventListener tx ''complete'' (TxComplete p tx) s))"

text \<open>
  Running one listener. The result says what the listener threw, if anything. In
  \<^verbatim>\<open>success\<close>, \<^verbatim>\<open>wrap(request.result)\<close> is evaluated before \<^verbatim>\<open>resolve\<close> is called, so a
  throwing \<^verbatim>\<open>wrap\<close> leaves the promise and the listeners as they were. Resolving with a
  promise (a request whose result is a request) is not followed.
\<close>

fun run_callback :: "'n engine \<Rightarrow> callback \<Rightarrow> 'n state \<Rightarrow> exn option \<times> 'n state" where
  "run_callback E (RequestSuccess p request) s =
     (case wrap (native_get E (native s) request (Name ''result'')) s of
        (Inl e, s1) \<Rightarrow> (Some e, s1)
      | (Inr (Promise q), s1) \<Rightarrow> (Some OutOfModel, s1)
      | (Inr w, s1) \<Rightarrow> (None, unlisten_request p request (resolve p w s1)))"
| "run_callback E (RequestError p request) s =
     (None, unlisten_request p request
              (reject p (native_get E (native s) request (Name ''error'')) s))"
| "run_callback E (TxComplete p tx) s = (None, unlisten_tx p tx (resolve p Undefined s))"
| "run_callback E (TxError p tx) s =
     (None, unlisten_tx p tx (reject p (native_get E (native s) tx (Name ''error'')) s))"

text \<open>Dispatching an event of the engine: the listeners registered for the target and the
  type when the dispatch starts run in order, each only if it is still registered, and the
  microtask queue is emptied after each.\<close>

fun run_listeners ::
  "'n engine \<Rightarrow> (val \<times> string \<times> callback) list \<Rightarrow> 'n state \<Rightarrow> exn option list \<times> 'n state" where
  "run_listeners E [] s = ([], s)"
| "run_listeners E (l # ls) s =
     (if l \<in> set (listeners s)
      then (case run_callback E (snd (snd l)) s of
              (e, s1) \<Rightarrow>
                (case run_listeners E ls (run_microtasks s1) of
                   (es, s2) \<Rightarrow> (e # es, s2)))
      else run_listeners E ls s)"

definition dispatchEvent ::
  "'n engine \<Rightarrow> val \<Rightarrow> string \<Rightarrow> 'n state \<Rightarrow> exn option list \<times> 'n state" where
  "dispatchEvent E target type s =
     run_listeners E (filter (\<lambda>l. fst l = target \<and> fst (snd l) = type) (listeners s)) s"

section \<open>The cursor iteration\<close>

text \<open>
  The async generator \<^verbatim>\<open>iterate\<close> as a state machine over its suspension points: not
  started, awaiting \<^verbatim>\<open>openCursor\<close>, suspended at \<^verbatim>\<open>yield proxiedCursor\<close>, awaiting the next
  position, and finished. \<open>gen_step\<close> runs the body from one suspension point to the next.
\<close>

datatype gen =
    GenStart val "val list"
  | GenAwaitOpen val
  | GenYield val val
  | GenAwaitAdvance val val
  | GenDone

datatype gen_out = Yielded val | Awaiting val | Returned | Threw exn

text \<open>The value an \<^verbatim>\<open>await\<close> continues with, once there is one.\<close>

fun settled :: "val \<Rightarrow> 'n state \<Rightarrow> (val + val) option" where
  "settled (Promise p) s =
     (case promises s p of
        Some (Fulfilled v, rs) \<Rightarrow> Some (Inr v)
      | Some (Rejected e, rs) \<Rightarrow> Some (Inl e)
      | _ \<Rightarrow> None)"
| "settled v s = Some (Inr v)"

text \<open>From \<^verbatim>\<open>if (!cursor) return\<close> to the first \<^verbatim>\<open>yield\<close>.\<close>

definition enter_loop :: "val \<Rightarrow> 'n state \<Rightarrow> gen_out \<times> gen \<times> 'n state" where
  "enter_loop cursor s =
     (if \<not> truthy cursor then (Returned, GenDone, s)
      else
        let proxiedCursor = Proxy (next_id s) cursor CursorIteratorTraps
        in (Yielded proxiedCursor, GenYield cursor proxiedCursor,
            s\<lparr>next_id := Suc (next_id s),
              proxiedCursorToOriginal := (proxiedCursorToOriginal s)(proxiedCursor \<mapsto> cursor)\<rparr>))"

fun gen_step :: "'n engine \<Rightarrow> gen \<Rightarrow> 'n state \<Rightarrow> gen_out \<times> gen \<times> 'n state" where
  "gen_step E (GenStart this args) s =
     (if \<not> instanceOf this IDBCursor
      then (case call_method E this (Name ''openCursor'') args s of
              (Inl e, s1) \<Rightarrow> (Threw e, GenDone, s1)
            | (Inr x, s1) \<Rightarrow> (Awaiting x, GenAwaitOpen x, s1))
      else enter_loop this s)"
| "gen_step E (GenAwaitOpen x) s =
     (case settled x s of
        None \<Rightarrow> (Awaiting x, GenAwaitOpen x, s)
      | Some (Inl e) \<Rightarrow> (Threw (Thrown e), GenDone, s)
      | Some (Inr cursor) \<Rightarrow> enter_loop cursor s)"
| "gen_step E (GenYield cursor proxiedCursor) s =
     (if truthy (weak_get (advanceResults s) proxiedCursor)
      then (Awaiting (weak_get (advanceResults s) proxiedCursor),
            GenAwaitAdvance proxiedCursor (weak_get (advanceResults s) proxiedCursor), s)
      else (case call_method E cursor (Name ''continue'') [] s of
              (Inl e, s1) \<Rightarrow> (Threw e, GenDone, s1)
            | (Inr x, s1) \<Rightarrow> (Awaiting x, GenAwaitAdvance proxiedCursor x, s1)))"
| "gen_step E (GenAwaitAdvance proxiedCursor x) s =
     (case settled x s of
        None \<Rightarrow> (Awaiting x, GenAwaitAdvance proxiedCursor x, s)
      | Some (Inl e) \<Rightarrow> (Threw (Thrown e), GenDone, s)
      | Some (Inr cursor) \<Rightarrow>
          (if truthy cursor
           then (Yielded proxiedCursor, GenYield cursor proxiedCursor,
                 s\<lparr>advanceResults := (advanceResults s)(proxiedCursor := None)\<rparr>)
           else (Returned, GenDone,
                 s\<lparr>advanceResults := (advanceResults s)(proxiedCursor := None)\<rparr>)))"
| "gen_step E GenDone s = (Returned, GenDone, s)"

text \<open>The elements a run of the generator publishes. Between two steps the consumer and
  the engine may change the state in any way, so each step starts from a state of its own.\<close>

fun yields :: "'n engine \<Rightarrow> gen \<Rightarrow> 'n state list \<Rightarrow> val list" where
  "yields E g [] = []"
| "yields E g (s # ss) =
     (case gen_step E g s of
        (Yielded v, g', s') \<Rightarrow> v # yields E g' ss
      | (out, g', s') \<Rightarrow> yields E g' ss)"


section \<open>Invariants of the caches\<close>

text \<open>An object this module has allocated before the counter reached \<open>n\<close>.\<close>

fun allocated :: "nat \<Rightarrow> val \<Rightarrow> bool" where
  "allocated n (Promise p) = (p < n)"
| "allocated n (Proxy i t h) = (i < n)"
| "allocated n (Func i c) = (i < n)"
| "allocated n v = False"

text \<open>The two caches agree: every entry of \<^verbatim>\<open>transformCache\<close> has its reverse in
  \<^verbatim>\<open>reverseTransformCache\<close>, whose keys are objects this module allocated.\<close>

definition cache_inv :: "'n state \<Rightarrow> bool" where
  "cache_inv s =
     ((\<forall>v w. transformCache s v = Some w \<longrightarrow> reverseTransformCache s w = Some v) \<and>
      (\<forall>w v. reverseTransformCache s w = Some v \<longrightarrow> allocated (next_id s) w))"

section \<open>A small storage engine for concrete runs\<close>

text \<open>
  One database (handle 0) with the object store \<^verbatim>\<open>books\<close> (handle 2), which has one index
  (handle 3), named by the empty string, and one cursor (handle 4). Transaction 1 spans \<^verbatim>\<open>books\<close>, transaction 2
  spans two stores, any other transaction spans none. The engine state gives the current
  result of each request. A raw method called on a receiver of the wrong kind,
  \<^verbatim>\<open>objectStore\<close> with a name outside the scope of the transaction and \<^verbatim>\<open>index\<close> with
  another name throw. \<^verbatim>\<open>get\<close> on the store returns request 10, \<^verbatim>\<open>get\<close> on the index
  request 20.
\<close>

definition demo_scope :: "nat \<Rightarrow> string list" where
  "demo_scope t = (if t = 1 then [''books''] else if t = 2 then [''authors'', ''books''] else [])"

definition demo_methods :: "kind \<Rightarrow> string list" where
  "demo_methods k =
     (if k = IDBDatabase then [''transaction'']
      else if k = IDBTransaction then [''objectStore'']
      else if k = IDBObjectStore
      then [''put'', ''add'', ''delete'', ''clear'', ''get'', ''index'', ''openCursor'']
      else if k = IDBIndex then [''get'', ''openCursor'']
      else if k = IDBCursor then [''advance'', ''continue'', ''continuePrimaryKey'']
      else [])"

definition demo_class :: "kind \<Rightarrow> string" where
  "demo_class k =
     (if k = IDBDatabase then ''IDBDatabase''
      else if k = IDBTransaction then ''IDBTransaction''
      else if k = IDBObjectStore then ''IDBObjectStore''
      else if k = IDBIndex then ''IDBIndex''
      else if k = IDBCursor then ''IDBCursor''
      else ''Object'')"

fun demo_get :: "(nat \<Rightarrow> val) \<Rightarrow> val \<Rightarrow> propkey \<Rightarrow> val" where
  "demo_get n (Handle k i) (Name p) =
     (if k = IDBRequest \<and> p = ''result'' then n i
      else if k = IDBRequest \<and> p = ''error'' then Str ''AbortError''
      else if k = IDBTransaction \<and> p = ''error'' then Str ''AbortError''
      else if p \<in> set (demo_methods k) then Fn (demo_class k @ ''.prototype.'' @ p)
      else Undefined)"
| "demo_get n v prop = Undefined"

fun demo_in :: "(nat \<Rightarrow> val) \<Rightarrow> val \<Rightarrow> propkey \<Rightarrow> bool" where
  "demo_in n (Handle k i) (Name p) =
     (p \<in> set (demo_methods k) \<or> (k = IDBRequest \<and> p \<in> {''result'', ''error''})
      \<or> (k = IDBTransaction \<and> p = ''error''))"
| "demo_in n v prop = False"

text \<open>The name a raw method makes of its first argument.\<close>

fun demo_name :: "val list \<Rightarrow> string" where
  "demo_name (Str nm # as) = nm"
| "demo_name as = ''undefined''"

definition demo_apply :: "val \<Rightarrow> val \<Rightarrow> val list \<Rightarrow> (nat \<Rightarrow> val) \<Rightarrow> (val + val) \<times> (nat \<Rightarrow> val)" where
  "demo_apply f this args n =
     (if f = Fn ''IDBDatabase.prototype.transaction'' \<and> this = Handle IDBDatabase 0
      then (if demo_name args = ''books'' then (Inr (Handle IDBTransaction 1), n)
            else (Inl (Str ''NotFoundError''), n))
      else if f = Fn ''IDBTransaction.prototype.objectStore'' \<and> instanceOf this IDBTransaction
      then (case this of
              Handle k t \<Rightarrow>
                (if demo_name args \<in> set (demo_scope t) then (Inr (Handle IDBObjectStore 2), n)
                 else (Inl (Str ''NotFoundError''), n))
            | _ \<Rightarrow> (Inl (Str ''TypeError''), n))
      else if this = Handle IDBObjectStore 2 \<and> f = Fn ''IDBObjectStore.prototype.index''
      then (if demo_name args = [] then (Inr (Handle IDBIndex 3), n)
            else (Inl (Str ''NotFoundError''), n))
      else if this = Handle IDBObjectStore 2 \<and> f = Fn ''IDBObjectStore.prototype.get''
      then (Inr (Handle IDBRequest 10), n)
      else if this = Handle IDBObjectStore 2 \<and> f = Fn ''IDBObjectStore.prototype.put''
      then (Inr (Handle IDBRequest 11), n)
      else if this = Handle IDBObjectStore 2 \<and> f = Fn ''IDBObjectStore.prototype.openCursor''
      then (Inr (Handle IDBRequest 12), n)
      else if this = Handle IDBIndex 3 \<and> f = Fn ''IDBIndex.prototype.get''
      then (Inr (Handle IDBRequest 20), n)
      else if this = Handle IDBCursor 4 \<and> f \<in> set getCursorAdvanceMethods
      then (Inr Undefined, n)
      else (Inl (Str ''TypeError''), n))"

definition demo_engine :: "(nat \<Rightarrow> val) engine" where
  "demo_engine =
     \<lparr>native_get = demo_get, native_in = demo_in, native_apply = demo_apply,
      objectStoreNames = (\<lambda>n v. case v of Handle k t \<Rightarrow> demo_scope t | _ \<Rightarrow> [])\<rparr>"

text \<open>The engine state in which no request has a result yet.\<close>

definition demo_native :: "nat \<Rightarrow> val" where
  "demo_native = (\<lambda>i. Undefined)"

section \<open>The facade of a cursor iteration\<close>

text \<open>The \<^verbatim>\<open>proxiedCursor\<close> of a generator, once the body has created it.\<close>

fun facade :: "gen \<Rightarrow> val option" where
  "facade (GenYield cursor proxiedCursor) = Some proxiedCursor"
| "facade (GenAwaitAdvance proxiedCursor x) = Some proxiedCursor"
| "facade g = None"

text \<open>A run for the small engine: the wrapped cursor, and the states in which the
  generator is resumed three times (started; the consumer has called an advance method of
  the facade; the promise of that call is fulfilled with the cursor).\<close>

definition demo_cursor :: val where
  "demo_cursor = Proxy 1 (Handle IDBCursor 4) (IdbProxyTraps (IteratorSupport (DatabaseExtras BaseTraps)))"

definition demo_run :: "(nat \<Rightarrow> val) state list" where
  "demo_run =
     [(init demo_native)\<lparr>next_id := 2\<rparr>,
      (init demo_native)\<lparr>next_id := 4,
         advanceResults := [Proxy 2 demo_cursor CursorIteratorTraps \<mapsto> Promise 3],
         promises := [3 \<mapsto> (Pending, [])]\<rparr>,
      (init demo_native)\<lparr>next_id := 4,
         advanceResults := [Proxy 2 demo_cursor CursorIteratorTraps \<mapsto> Promise 3],
         promises := [3 \<mapsto> (Fulfilled demo_cursor, [])]\<rparr>]"

section \<open>How the state grows\<close>

text \<open>The promise a listener of this module settles.\<close>

fun cb_promise :: "callback \<Rightarrow> nat" where
  "cb_promise (RequestSuccess p r) = p"
| "cb_promise (RequestError p r) = p"
| "cb_promise (TxComplete p t) = p"
| "cb_promise (TxError p t) = p"

text \<open>
  \<open>extends s s'\<close>: from \<open>s\<close> to \<open>s'\<close> objects were only added. The allocation counter did
  not decrease, the promises allocated in \<open>s\<close> are as they were, the entries of
  \<^verbatim>\<open>transformCache\<close> and \<^verbatim>\<open>transactionDoneMap\<close> are kept, the listeners are kept, and a
  new listener belongs to a promise allocated in between.
\<close>

definition extends :: "'n state \<Rightarrow> 'n state \<Rightarrow> bool" where
  "extends s s' =
     (next_id s \<le> next_id s'
      \<and> (\<forall>p. p < next_id s \<longrightarrow> promises s' p = promises s p)
      \<and> (\<forall>x w. transformCache s x = Some w \<longrightarrow> transformCache s' x = Some w)
      \<and> (\<forall>x w. transactionDoneMap s x = Some w \<longrightarrow> transactionDoneMap s' x = Some w)
      \<and> (\<forall>l. l \<in> set (listeners s) \<longrightarrow> l \<in> set (listeners s'))
      \<and> (\<forall>l. l \<in> set (listeners s') \<longrightarrow>
             l \<in> set (listeners s) \<or>
             (next_id s \<le> cb_promise (snd (snd l)) \<and> cb_promise (snd (snd l)) < next_id s')))"

text \<open>Every registered listener belongs to a promise that has been allocated.\<close>

definition listeners_fresh :: "'n state \<Rightarrow> bool" where
  "listeners_fresh s = (\<forall>l \<in> set (listeners s). cb_promise (snd (snd l)) < next_id s)"

text \<open>The registrations a listener removes when it has run: those of its promise.\<close>

fun entries :: "callback \<Rightarrow> (val \<times> string \<times> callback) set" where
  "entries (RequestSuccess p r) = {(r, ''success'', RequestSuccess p r), (r, ''error'', RequestError p r)}"
| "entries (RequestError p r) = {(r, ''success'', RequestSuccess p r), (r, ''error'', RequestError p r)}"
| "entries (TxComplete p t) =
     {(t, ''complete'', TxComplete p t), (t, ''error'', TxError p t), (t, ''abort'', TxError p t)}"
| "entries (TxError p t) =
     {(t, ''complete'', TxComplete p t), (t, ''error'', TxError p t), (t, ''abort'', TxError p t)}"

text \<open>
  The closure \<^verbatim>\<open>wrapFunction\<close> makes for a function, and what \<^verbatim>\<open>wrap\<close> caches for a value:
  a function of that closure for a function, a proxy of the value with a handler chain of
  this module otherwise. \<open>cache_sound\<close>: every entry of \<^verbatim>\<open>transformCache\<close> is of this shape.
\<close>

definition closure_for :: "val \<Rightarrow> closure" where
  "closure_for func =
     (if func \<in> set getCursorAdvanceMethods then WrappedAdvance func else WrappedFunction func)"

fun is_wrapper_of :: "val \<Rightarrow> val \<Rightarrow> bool" where
  "is_wrapper_of v (Func k c) = (is_function v \<and> c = closure_for v)"
| "is_wrapper_of v (Proxy k t (IdbProxyTraps ts)) = (t = v \<and> \<not> is_function v)"
| "is_wrapper_of v w = False"

definition cache_sound :: "'n state \<Rightarrow> bool" where
  "cache_sound s = (\<forall>v w. transformCache s v = Some w \<longrightarrow> is_wrapper_of v w)"



text \<open>The wrapped database of the small engine, the state after it was wrapped, and the
  state after \<^verbatim>\<open>getFromIndex\<close> was read on it.\<close>

definition demo_db :: val where
  "demo_db = Proxy 1 (Handle IDBDatabase 0) (IdbProxyTraps (IteratorSupport (DatabaseExtras BaseTraps)))"

definition demo_db_state :: "(nat \<Rightarrow> val) state" where
  "demo_db_state = snd (wrap (Handle IDBDatabase 0) (init demo_native))"

definition demo_read_state :: "(nat \<Rightarrow> val) state" where
  "demo_read_state = snd (js_get demo_engine demo_db (Name ''getFromIndex'') demo_db_state)"

text \<open>The state after reading \<^verbatim>\<open>put\<close> on the wrapped database of the small engine.\<close>

definition demo_write_state :: "(nat \<Rightarrow> val) state" where
  "demo_write_state = snd (js_get demo_engine demo_db (Name ''put'') demo_db_state)"

section \<open>Properties of the wrapping layer\<close>

lemma addEventListener_alt:
  "addEventListener target type cb s =
     s\<lparr>listeners := (if (target, type, cb) \<in> set (listeners s) then listeners s
                     else listeners s @ [(target, type, cb)])\<rparr>"
  by (simp add: addEventListener_def)

lemma promisifyRequest_raw:
  "promisifyRequest (Handle k i) s =
     (Inr (Promise (next_id s)),
      s\<lparr>next_id := Suc (next_id s),
        promises := (promises s)(next_id s \<mapsto> (Pending, [CacheCursorRequest (Handle k i)])),
        listeners := listeners (addEventListener (Handle k i) ''error'' (RequestError (next_id s) (Handle k i))
                        (addEventListener (Handle k i) ''success'' (RequestSuccess (next_id s) (Handle k i)) s)),
        reverseTransformCache := (reverseTransformCache s)(Promise (next_id s) \<mapsto> Handle k i)\<rparr>)"
  by (simp add: promisifyRequest_def Let_def addEventListener_alt promise_then_def)

lemma promisifyRequest_nonraw:
  "\<not> is_raw v \<Longrightarrow> promisifyRequest v s = (Inl OutOfModel, s)"
  by (simp add: promisifyRequest_def)

lemma is_raw_Handle: "is_raw v \<Longrightarrow> \<exists>k i. v = Handle k i"
  by (cases v) simp_all

lemma cacheDone_raw:
  "cacheDonePromiseForTransaction (Handle k i) s =
     (Inr (),
      if transactionDoneMap s (Handle k i) \<noteq> None then s
      else s\<lparr>next_id := Suc (next_id s),
             promises := (promises s)(next_id s \<mapsto> (Pending, [])),
             listeners := listeners
               (addEventListener (Handle k i) ''abort'' (TxError (next_id s) (Handle k i))
                 (addEventListener (Handle k i) ''error'' (TxError (next_id s) (Handle k i))
                   (addEventListener (Handle k i) ''complete'' (TxComplete (next_id s) (Handle k i)) s))),
             transactionDoneMap := (transactionDoneMap s)(Handle k i \<mapsto> Promise (next_id s))\<rparr>)"
  by (simp add: cacheDonePromiseForTransaction_def Let_def addEventListener_alt weak_has_def)

lemma cacheDone_caches [simp]:
  "transformCache (snd (cacheDonePromiseForTransaction v s)) = transformCache s"
  "reverseTransformCache (snd (cacheDonePromiseForTransaction v s)) = reverseTransformCache s"
  "idbProxyTraps (snd (cacheDonePromiseForTransaction v s)) = idbProxyTraps s"
  "next_id s \<le> next_id (snd (cacheDonePromiseForTransaction v s))"
  by (simp_all add: cacheDonePromiseForTransaction_def Let_def addEventListener_alt)

lemma wrap_handle:
  assumes "k \<in> set getIdbProxyableTypes"
  shows "wrap (Handle k i) s =
     (if transformCache s (Handle k i) \<noteq> None then (Inr (the (transformCache s (Handle k i))), s)
      else
        let s1 = (if k = IDBTransaction then snd (cacheDonePromiseForTransaction (Handle k i) s) else s);
            w = Proxy (next_id s1) (Handle k i) (IdbProxyTraps (idbProxyTraps s))
        in (Inr w, s1\<lparr>next_id := Suc (next_id s1),
                      transformCache := (transformCache s)(Handle k i \<mapsto> w),
                      reverseTransformCache := (reverseTransformCache s)(w \<mapsto> Handle k i)\<rparr>))"
  using assms
  by (auto simp add: wrap_def weak_has_def weak_get_def transformCachableValue_def
      getIdbProxyableTypes_def instanceOfAny_def cacheDone_raw strict_neq_def weak_set_def Let_def)


lemma cache_invD1:
  "cache_inv s \<Longrightarrow> transformCache s v = Some w \<Longrightarrow> reverseTransformCache s w = Some v"
  by (simp add: cache_inv_def)

lemma cache_invD2:
  "cache_inv s \<Longrightarrow> reverseTransformCache s w = Some v \<Longrightarrow> allocated (next_id s) w"
  by (simp add: cache_inv_def)

lemma cache_inv_fresh:
  "cache_inv s \<Longrightarrow> \<not> allocated (next_id s) w \<Longrightarrow> reverseTransformCache s w = None"
  by (cases "reverseTransformCache s w") (auto dest: cache_invD2)

lemma cache_inv_fresh_value:
  "cache_inv s \<Longrightarrow> \<not> allocated (next_id s) w \<Longrightarrow> transformCache s v \<noteq> Some w"
  by (auto dest: cache_invD1 cache_invD2)

lemma allocated_object: "allocated n w \<Longrightarrow> is_object w"
  by (cases w) simp_all

lemma allocated_mono: "allocated n w \<Longrightarrow> n \<le> m \<Longrightarrow> allocated m w"
  by (cases w) simp_all

lemma tcv_cases:
  assumes "transformCachableValue v s = (r, s1)"
  shows "transformCache s1 = transformCache s \<and> reverseTransformCache s1 = reverseTransformCache s
       \<and> next_id s \<le> next_id s1
       \<and> (case r of Inl e \<Rightarrow> True
           | Inr nv \<Rightarrow> nv = v \<or> (allocated (next_id s1) nv \<and> \<not> allocated (next_id s) nv))"
  using assms
  by (auto simp add: transformCachableValue_def wrapFunction_def cacheDonePromiseForTransaction_def
      Let_def addEventListener_alt split: if_splits prod.splits sum.splits)

lemma wrap_reverse:
  "reverseTransformCache (snd (wrap v s)) x = reverseTransformCache s x \<or> fst (wrap v s) = Inr x"
proof (cases "instanceOf v IDBRequest")
  case True
  show ?thesis
  proof (cases "is_raw v")
    case r: True
    then obtain k i where "v = Handle k i" using is_raw_Handle by blast
    with True show ?thesis by (simp add: wrap_def promisifyRequest_raw)
  next
    case r: False
    with True show ?thesis by (simp add: wrap_def promisifyRequest_nonraw)
  qed
next
  case False
  obtain r s1 where t: "transformCachableValue v s = (r, s1)" by (cases "transformCachableValue v s")
  from tcv_cases[OF t] False t show ?thesis
    by (auto simp add: wrap_def weak_set_def split: sum.splits if_splits)
qed

lemma wrap_cache_inv:
  assumes "cache_inv s"
  shows "cache_inv (snd (wrap v s))"
proof (cases "instanceOf v IDBRequest")
  case True
  show ?thesis
  proof (cases "is_raw v")
    case r: True
    then obtain k i where "v = Handle k i" using is_raw_Handle by blast
    with True have st: "snd (wrap v s) =
        s\<lparr>next_id := Suc (next_id s),
          promises := (promises s)(next_id s \<mapsto> (Pending, [CacheCursorRequest v])),
          listeners := listeners (addEventListener v ''error'' (RequestError (next_id s) v)
                          (addEventListener v ''success'' (RequestSuccess (next_id s) v) s)),
          reverseTransformCache := (reverseTransformCache s)(Promise (next_id s) \<mapsto> v)\<rparr>"
      by (simp add: wrap_def promisifyRequest_raw)
    have nf: "\<not> allocated (next_id s) (Promise (next_id s))" by simp
    show ?thesis
      unfolding st cache_inv_def
    proof (intro conjI allI impI)
      fix x w assume a: "transformCache (s\<lparr>next_id := Suc (next_id s),
          promises := (promises s)(next_id s \<mapsto> (Pending, [CacheCursorRequest v])),
          listeners := listeners (addEventListener v ''error'' (RequestError (next_id s) v)
                          (addEventListener v ''success'' (RequestSuccess (next_id s) v) s)),
          reverseTransformCache := (reverseTransformCache s)(Promise (next_id s) \<mapsto> v)\<rparr>) x = Some w"
      then have t: "transformCache s x = Some w" by simp
      with cache_inv_fresh_value[OF assms nf] have "w \<noteq> Promise (next_id s)" by auto
      with cache_invD1[OF assms t]
      show "reverseTransformCache (s\<lparr>next_id := Suc (next_id s),
          promises := (promises s)(next_id s \<mapsto> (Pending, [CacheCursorRequest v])),
          listeners := listeners (addEventListener v ''error'' (RequestError (next_id s) v)
                          (addEventListener v ''success'' (RequestSuccess (next_id s) v) s)),
          reverseTransformCache := (reverseTransformCache s)(Promise (next_id s) \<mapsto> v)\<rparr>) w = Some x"
        by simp
    next
      fix w x assume "reverseTransformCache (s\<lparr>next_id := Suc (next_id s),
          promises := (promises s)(next_id s \<mapsto> (Pending, [CacheCursorRequest v])),
          listeners := listeners (addEventListener v ''error'' (RequestError (next_id s) v)
                          (addEventListener v ''success'' (RequestSuccess (next_id s) v) s)),
          reverseTransformCache := (reverseTransformCache s)(Promise (next_id s) \<mapsto> v)\<rparr>) w = Some x"
      then have "w = Promise (next_id s) \<or> reverseTransformCache s w = Some x"
        by (simp split: if_splits)
      then show "allocated (next_id (s\<lparr>next_id := Suc (next_id s),
          promises := (promises s)(next_id s \<mapsto> (Pending, [CacheCursorRequest v])),
          listeners := listeners (addEventListener v ''error'' (RequestError (next_id s) v)
                          (addEventListener v ''success'' (RequestSuccess (next_id s) v) s)),
          reverseTransformCache := (reverseTransformCache s)(Promise (next_id s) \<mapsto> v)\<rparr>)) w"
        using cache_invD2[OF assms, of w x] by (auto intro: allocated_mono)
    qed
  next
    case r: False
    with True assms show ?thesis by (simp add: wrap_def promisifyRequest_nonraw)
  qed
next
  case False
  obtain r s1 where t: "transformCachableValue v s = (r, s1)" by (cases "transformCachableValue v s")
  from tcv_cases[OF t] have
    c: "transformCache s1 = transformCache s" "reverseTransformCache s1 = reverseTransformCache s"
       "next_id s \<le> next_id s1" by auto
  have inv1: "cache_inv s1" using assms c by (auto simp add: cache_inv_def intro: allocated_mono)
  show ?thesis
  proof (cases "weak_has (transformCache s) v")
    case True
    with False assms show ?thesis by (simp add: wrap_def)
  next
    case nc: False
    show ?thesis
    proof (cases r)
      case (Inl e)
      with False nc t inv1 show ?thesis by (simp add: wrap_def)
    next
      case (Inr nv)
      show ?thesis
      proof (cases "nv = v")
        case True
        with \<open>\<not> instanceOf v IDBRequest\<close> nc t Inr inv1 show ?thesis
          by (auto simp add: wrap_def weak_set_def strict_neq_def)
      next
        case ne: False
        with tcv_cases[OF t] Inr have fresh: "allocated (next_id s1) nv" "\<not> allocated (next_id s) nv"
          by auto
        then have onv: "is_object nv" by (blast intro: allocated_object)
        show ?thesis
        proof (cases "is_object v")
          case False
          with \<open>\<not> instanceOf v IDBRequest\<close> nc t Inr inv1 show ?thesis
            by (auto simp add: wrap_def weak_set_def)
        next
          case True
          with nc have none: "transformCache s v = None" by (simp add: weak_has_def)
          have nk: "reverseTransformCache s nv = None"
            using assms fresh(2) by (rule cache_inv_fresh)
          have nv: "\<And>x. transformCache s x \<noteq> Some nv"
            using assms fresh(2) by (rule cache_inv_fresh_value)
          have st: "snd (wrap v s) = s1\<lparr>transformCache := (transformCache s1)(v \<mapsto> nv),
                   reverseTransformCache := (reverseTransformCache s1)(nv \<mapsto> v)\<rparr>"
            using \<open>\<not> instanceOf v IDBRequest\<close> nc t Inr True ne onv
            by (simp add: wrap_def weak_set_def strict_neq_def)
          show ?thesis
            unfolding st cache_inv_def
          proof (intro conjI allI impI)
            fix x w
            assume "transformCache (s1\<lparr>transformCache := (transformCache s1)(v \<mapsto> nv),
                   reverseTransformCache := (reverseTransformCache s1)(nv \<mapsto> v)\<rparr>) x = Some w"
            then have "(x = v \<and> w = nv) \<or> (x \<noteq> v \<and> transformCache s x = Some w)"
              using c by (auto split: if_splits)
            then show "reverseTransformCache (s1\<lparr>transformCache := (transformCache s1)(v \<mapsto> nv),
                   reverseTransformCache := (reverseTransformCache s1)(nv \<mapsto> v)\<rparr>) w = Some x"
              using c nv cache_invD1[OF assms, of x w] by auto
          next
            fix w x
            assume "reverseTransformCache (s1\<lparr>transformCache := (transformCache s1)(v \<mapsto> nv),
                   reverseTransformCache := (reverseTransformCache s1)(nv \<mapsto> v)\<rparr>) w = Some x"
            then have "w = nv \<or> reverseTransformCache s1 w = Some x" by (simp split: if_splits)
            then show "allocated (next_id (s1\<lparr>transformCache := (transformCache s1)(v \<mapsto> nv),
                   reverseTransformCache := (reverseTransformCache s1)(nv \<mapsto> v)\<rparr>)) w"
              using fresh(1) cache_invD2[OF inv1, of w x] by auto
          qed
        qed
      qed
    qed
  qed
qed

lemma cache_inv_init: "cache_inv (init n)"
  by (simp add: cache_inv_def init_def addTraps_def empty_state_def)




text \<open>
  Claim C3, as the code has it. \<^verbatim>\<open>wrap\<close> of a request is \<^verbatim>\<open>promisifyRequest\<close> of it and
  returns a new promise. \<^verbatim>\<open>transformCache\<close> is left as it was, so a second call makes a
  second, different promise; \<^verbatim>\<open>reverseTransformCache\<close> does receive the entry promise
  \<open>\<mapsto>\<close> request, so \<^verbatim>\<open>unwrap\<close> of the promise is the request.
\<close>

theorem wrap_request_fresh_future:
  "wrap (Handle IDBRequest i) s = promisifyRequest (Handle IDBRequest i) s
   \<and> fst (wrap (Handle IDBRequest i) s) = Inr (Promise (next_id s))
   \<and> transformCache (snd (wrap (Handle IDBRequest i) s)) = transformCache s
   \<and> reverseTransformCache (snd (wrap (Handle IDBRequest i) s)) =
       (reverseTransformCache s)(Promise (next_id s) \<mapsto> Handle IDBRequest i)
   \<and> unwrap (Promise (next_id s)) (snd (wrap (Handle IDBRequest i) s)) = Handle IDBRequest i
   \<and> fst (wrap (Handle IDBRequest i) (snd (wrap (Handle IDBRequest i) s))) =
       Inr (Promise (Suc (next_id s)))
   \<and> fst (wrap (Handle IDBRequest i) (snd (wrap (Handle IDBRequest i) s))) \<noteq>
       fst (wrap (Handle IDBRequest i) s)"
  by (simp add: wrap_def promisifyRequest_raw unwrap_def weak_get_def)

text \<open>
  Claim C3 as stated fails: after \<^verbatim>\<open>wrap\<close> of request 0 in the initial state, the
  reverse map of the cache holds the promise with the request.
\<close>

theorem wrap_request_reverse_cached:
  "fst (wrap (Handle IDBRequest 0) (init demo_native)) = Inr (Promise 1)
   \<and> reverseTransformCache (snd (wrap (Handle IDBRequest 0) (init demo_native))) (Promise 1) =
       Some (Handle IDBRequest 0)"
  by (simp add: wrap_def promisifyRequest_raw init_def addTraps_def empty_state_def)

section \<open>Properties of the database extras\<close>

text \<open>
  Claim C9. When a string property is in the raw database, the \<^verbatim>\<open>get\<close> and \<^verbatim>\<open>has\<close> traps
  of the database extras answer what the handler below them answers, whatever that handler
  is; under the handler chain of the loaded module, reading the property on the wrapped
  database is \<^verbatim>\<open>wrap\<close> of the raw property and the existence check is true.
\<close>

theorem database_extras_never_shadow:
  assumes "native_in E (native s) (Handle IDBDatabase i) (Name p)"
  shows "traps_get E (DatabaseExtras oldTraps) (Handle IDBDatabase i) (Name p) receiver s =
           traps_get E oldTraps (Handle IDBDatabase i) (Name p) receiver s
       \<and> traps_has E (native s) (DatabaseExtras oldTraps) (Handle IDBDatabase i) (Name p) =
           traps_has E (native s) oldTraps (Handle IDBDatabase i) (Name p)
       \<and> js_get E (Proxy j (Handle IDBDatabase i) (IdbProxyTraps (idbProxyTraps (init n0))))
             (Name p) s =
           wrap (native_get E (native s) (Handle IDBDatabase i) (Name p)) s
       \<and> js_has E (native s)
             (Proxy j (Handle IDBDatabase i) (IdbProxyTraps (idbProxyTraps (init n0)))) (Name p) =
           Inr True"
  using assms
  by (simp add: potentialDatabaseExtra_def init_def addTraps_def empty_state_def
      isIteratorProp_def instanceOfAny_def)

theorem database_extras_never_shadow_witness:
  "native_in demo_engine (native (init demo_native)) (Handle IDBDatabase 0) (Name ''transaction'')
   \<and> traps_get demo_engine (DatabaseExtras BaseTraps) (Handle IDBDatabase 0) (Name ''transaction'')
         Undefined (init demo_native) =
       traps_get demo_engine BaseTraps (Handle IDBDatabase 0) (Name ''transaction'')
         Undefined (init demo_native)
   \<and> js_has demo_engine (native (init demo_native))
         (Proxy 1 (Handle IDBDatabase 0) (IdbProxyTraps (idbProxyTraps (init demo_native))))
         (Name ''transaction'') = Inr True"
proof -
  have h: "native_in demo_engine (native (init demo_native)) (Handle IDBDatabase 0)
             (Name ''transaction'')"
    by (simp add: demo_engine_def demo_methods_def)
  from database_extras_never_shadow[OF h, of BaseTraps Undefined 1 demo_native] h
  show ?thesis by blast
qed

section \<open>Properties of the cursor iteration\<close>

lemma enter_loop_facade:
  assumes "enter_loop cursor s = (out, g', s')"
  shows "(\<forall>v. out = Yielded v \<longrightarrow> facade g' = Some v) \<and> (facade g' = None \<longrightarrow> g' = GenDone)"
  using assms by (auto simp add: enter_loop_def Let_def split: if_splits)

lemma gen_step_facade_kept:
  assumes "facade g = Some pc" and "gen_step E g s = (out, g', s')"
  shows "(\<forall>v. out = Yielded v \<longrightarrow> v = pc) \<and> (facade g' = Some pc \<or> g' = GenDone)"
  using assms
  by (cases g) (auto split: if_splits prod.splits sum.splits option.splits)

lemma gen_step_facade_new:
  assumes "facade g = None" and "gen_step E g s = (out, g', s')"
  shows "(\<forall>v. out = Yielded v \<longrightarrow> facade g' = Some v)"
  using assms
  by (cases g) (auto split: if_splits prod.splits sum.splits option.splits dest: enter_loop_facade)

lemma yields_done: "yields E GenDone ss = []"
  by (induction ss) simp_all

lemma yields_kept:
  "facade g = Some pc \<Longrightarrow> set (yields E g ss) \<subseteq> {pc}"
proof (induction ss arbitrary: g)
  case Nil
  then show ?case by simp
next
  case (Cons s ss)
  obtain out g' s' where st: "gen_step E g s = (out, g', s')" by (cases "gen_step E g s")
  from gen_step_facade_kept[OF Cons.prems st]
  have out: "\<forall>v. out = Yielded v \<longrightarrow> v = pc" and g': "facade g' = Some pc \<or> g' = GenDone" by auto
  from g' have "set (yields E g' ss) \<subseteq> {pc}"
    using Cons.IH[of g'] by (auto simp add: yields_done)
  with out st show ?case by (cases out) auto
qed

lemma yields_one:
  "\<exists>pc. set (yields E g ss) \<subseteq> {pc}"
proof (induction ss arbitrary: g)
  case Nil
  then show ?case by simp
next
  case (Cons s ss)
  show ?case
  proof (cases "facade g")
    case (Some pc)
    then show ?thesis using yields_kept by blast
  next
    case None
    obtain out g' s' where st: "gen_step E g s = (out, g', s')" by (cases "gen_step E g s")
    show ?thesis
    proof (cases out)
      case (Yielded v)
      with gen_step_facade_new[OF None st] have "facade g' = Some v" by simp
      then have "set (yields E g' ss) \<subseteq> {v}" by (rule yields_kept)
      with st Yielded show ?thesis by auto
    qed (use st Cons.IH[of g'] in auto)
  qed
qed

text \<open>
  Claim C8. Whatever the states in which the generator of \<^verbatim>\<open>iterate\<close> is resumed, all
  the elements it publishes are one and the same object: the facade is created once,
  before the loop, and every \<^verbatim>\<open>yield\<close> publishes it.
\<close>

theorem iterate_facade_identity:
  "\<forall>x \<in> set (yields E (GenStart this args) ss). \<forall>y \<in> set (yields E (GenStart this args) ss). x = y"
  using yields_one[of E "GenStart this args" ss] by auto

lemma demo_run_yields:
  "yields demo_engine (GenStart demo_cursor []) demo_run =
     [Proxy 2 demo_cursor CursorIteratorTraps, Proxy 2 demo_cursor CursorIteratorTraps]"
  by (simp add: demo_run_def demo_cursor_def enter_loop_def init_def addTraps_def empty_state_def Let_def
      weak_get_def)

theorem iterate_facade_identity_witness:
  "yields demo_engine (GenStart demo_cursor []) demo_run =
     [Proxy 2 demo_cursor CursorIteratorTraps, Proxy 2 demo_cursor CursorIteratorTraps]
   \<and> hd (yields demo_engine (GenStart demo_cursor []) demo_run) =
       last (yields demo_engine (GenStart demo_cursor []) demo_run)"
proof -
  let ?ys = "yields demo_engine (GenStart demo_cursor []) demo_run"
  have ne: "?ys \<noteq> []" by (simp add: demo_run_yields)
  then have "hd ?ys \<in> set ?ys" "last ?ys \<in> set ?ys" by simp_all
  with iterate_facade_identity[of demo_engine demo_cursor "[]" demo_run]
  have "hd ?ys = last ?ys" by blast
  with demo_run_yields show ?thesis by simp
qed

section \<open>Frame properties\<close>

lemma extends_refl: "extends s s"
  by (simp add: extends_def)

lemma extends_trans:
  assumes a: "extends s s'" and b: "extends s' s''"
  shows "extends s s''"
proof -
  from a have a1: "next_id s \<le> next_id s'"
    and a2: "\<And>p. p < next_id s \<Longrightarrow> promises s' p = promises s p"
    and a3: "\<And>x w. transformCache s x = Some w \<Longrightarrow> transformCache s' x = Some w"
    and a4: "\<And>x w. transactionDoneMap s x = Some w \<Longrightarrow> transactionDoneMap s' x = Some w"
    and a5: "\<And>l. l \<in> set (listeners s) \<Longrightarrow> l \<in> set (listeners s')"
    and a6: "\<And>l. l \<in> set (listeners s') \<Longrightarrow>
               l \<in> set (listeners s) \<or>
               (next_id s \<le> cb_promise (snd (snd l)) \<and> cb_promise (snd (snd l)) < next_id s')"
    unfolding extends_def by blast+
  from b have b1: "next_id s' \<le> next_id s''"
    and b2: "\<And>p. p < next_id s' \<Longrightarrow> promises s'' p = promises s' p"
    and b3: "\<And>x w. transformCache s' x = Some w \<Longrightarrow> transformCache s'' x = Some w"
    and b4: "\<And>x w. transactionDoneMap s' x = Some w \<Longrightarrow> transactionDoneMap s'' x = Some w"
    and b5: "\<And>l. l \<in> set (listeners s') \<Longrightarrow> l \<in> set (listeners s'')"
    and b6: "\<And>l. l \<in> set (listeners s'') \<Longrightarrow>
               l \<in> set (listeners s') \<or>
               (next_id s' \<le> cb_promise (snd (snd l)) \<and> cb_promise (snd (snd l)) < next_id s'')"
    unfolding extends_def by blast+
  show ?thesis
    unfolding extends_def
  proof (intro conjI allI impI)
    show "next_id s \<le> next_id s''" using a1 b1 by simp
  next
    fix p assume "p < next_id s"
    then show "promises s'' p = promises s p" using a1 a2[of p] b2[of p] by simp
  next
    fix x w assume "transformCache s x = Some w"
    then show "transformCache s'' x = Some w" using a3 b3 by blast
  next
    fix x w assume "transactionDoneMap s x = Some w"
    then show "transactionDoneMap s'' x = Some w" using a4 b4 by blast
  next
    fix l assume "l \<in> set (listeners s)"
    then show "l \<in> set (listeners s'')" using a5 b5 by blast
  next
    fix l assume "l \<in> set (listeners s'')"
    then show "l \<in> set (listeners s) \<or>
        (next_id s \<le> cb_promise (snd (snd l)) \<and> cb_promise (snd (snd l)) < next_id s'')"
      using a6[of l] b6[of l] a1 b1 by auto
  qed
qed

lemma addEventListener_fields [simp]:
  "set (listeners (addEventListener t ty cb s)) = insert (t, ty, cb) (set (listeners s))"
  "native (addEventListener t ty cb s) = native s"
  "next_id (addEventListener t ty cb s) = next_id s"
  "promises (addEventListener t ty cb s) = promises s"
  "microtasks (addEventListener t ty cb s) = microtasks s"
  "idbProxyTraps (addEventListener t ty cb s) = idbProxyTraps s"
  "cursorRequestMap (addEventListener t ty cb s) = cursorRequestMap s"
  "transactionDoneMap (addEventListener t ty cb s) = transactionDoneMap s"
  "transformCache (addEventListener t ty cb s) = transformCache s"
  "reverseTransformCache (addEventListener t ty cb s) = reverseTransformCache s"
  "cachedMethods (addEventListener t ty cb s) = cachedMethods s"
  "methodMap (addEventListener t ty cb s) = methodMap s"
  "advanceResults (addEventListener t ty cb s) = advanceResults s"
  "proxiedCursorToOriginal (addEventListener t ty cb s) = proxiedCursorToOriginal s"
  by (auto simp add: addEventListener_def)

lemma promisifyRequest_extends: "extends s (snd (promisifyRequest v s))"
proof (cases "is_raw v")
  case True
  then obtain k i where "v = Handle k i" using is_raw_Handle by blast
  then show ?thesis by (auto simp add: promisifyRequest_raw extends_def)
next
  case False
  then show ?thesis by (simp add: promisifyRequest_nonraw extends_refl)
qed

lemma promisifyRequest_unchanged:
  "native (snd (promisifyRequest v s)) = native s"
  "idbProxyTraps (snd (promisifyRequest v s)) = idbProxyTraps s"
  "microtasks (snd (promisifyRequest v s)) = microtasks s"
  "cursorRequestMap (snd (promisifyRequest v s)) = cursorRequestMap s"
  "cachedMethods (snd (promisifyRequest v s)) = cachedMethods s"
  "methodMap (snd (promisifyRequest v s)) = methodMap s"
  "advanceResults (snd (promisifyRequest v s)) = advanceResults s"
  "proxiedCursorToOriginal (snd (promisifyRequest v s)) = proxiedCursorToOriginal s"
  "transactionDoneMap (snd (promisifyRequest v s)) = transactionDoneMap s"
  "transformCache (snd (promisifyRequest v s)) = transformCache s"
  by (cases "is_raw v"; cases v; simp add: promisifyRequest_raw promisifyRequest_nonraw)+

lemma cacheDone_nonraw:
  "\<not> is_raw v \<Longrightarrow> snd (cacheDonePromiseForTransaction v s) = s"
  by (simp add: cacheDonePromiseForTransaction_def)

lemma cacheDone_extends: "extends s (snd (cacheDonePromiseForTransaction v s))"
proof (cases "is_raw v")
  case True
  then obtain k i where "v = Handle k i" using is_raw_Handle by blast
  then show ?thesis by (auto simp add: cacheDone_raw extends_def)
next
  case False
  then show ?thesis by (simp add: cacheDone_nonraw extends_refl)
qed

lemma cacheDone_unchanged:
  "native (snd (cacheDonePromiseForTransaction v s)) = native s"
  "microtasks (snd (cacheDonePromiseForTransaction v s)) = microtasks s"
  "cursorRequestMap (snd (cacheDonePromiseForTransaction v s)) = cursorRequestMap s"
  "cachedMethods (snd (cacheDonePromiseForTransaction v s)) = cachedMethods s"
  "methodMap (snd (cacheDonePromiseForTransaction v s)) = methodMap s"
  "advanceResults (snd (cacheDonePromiseForTransaction v s)) = advanceResults s"
  "proxiedCursorToOriginal (snd (cacheDonePromiseForTransaction v s)) = proxiedCursorToOriginal s"
  by (cases "is_raw v"; cases v; simp add: cacheDone_raw cacheDone_nonraw)+

lemma extends_next_id:
  "extends s s' \<Longrightarrow> extends s (s'\<lparr>next_id := Suc (next_id s')\<rparr>)"
  unfolding extends_def by (simp; fastforce)

lemma tcv_state:
  "snd (transformCachableValue v s) = s
   \<or> snd (transformCachableValue v s) = s\<lparr>next_id := Suc (next_id s)\<rparr>
   \<or> snd (transformCachableValue v s) = snd (cacheDonePromiseForTransaction v s)
   \<or> snd (transformCachableValue v s) =
        (snd (cacheDonePromiseForTransaction v s))
          \<lparr>next_id := Suc (next_id (snd (cacheDonePromiseForTransaction v s)))\<rparr>"
  by (cases "cacheDonePromiseForTransaction v s")
     (auto simp add: transformCachableValue_def wrapFunction_def split: sum.splits)

lemma tcv_extends: "extends s (snd (transformCachableValue v s))"
  using tcv_state[of v s] cacheDone_extends[of s v]
  by (auto simp add: extends_refl extends_next_id)

lemma tcv_unchanged:
  "native (snd (transformCachableValue v s)) = native s"
  "idbProxyTraps (snd (transformCachableValue v s)) = idbProxyTraps s"
  "microtasks (snd (transformCachableValue v s)) = microtasks s"
  "cursorRequestMap (snd (transformCachableValue v s)) = cursorRequestMap s"
  "cachedMethods (snd (transformCachableValue v s)) = cachedMethods s"
  "methodMap (snd (transformCachableValue v s)) = methodMap s"
  "advanceResults (snd (transformCachableValue v s)) = advanceResults s"
  "proxiedCursorToOriginal (snd (transformCachableValue v s)) = proxiedCursorToOriginal s"
  using tcv_state[of v s]
  by (auto simp add: cacheDone_unchanged)

text \<open>What \<^verbatim>\<open>wrap\<close> leaves of the state, in terms of \<^verbatim>\<open>transformCachableValue\<close>.\<close>

lemma wrap_state:
  "snd (wrap v s) = s
   \<or> snd (wrap v s) = snd (promisifyRequest v s)
   \<or> snd (wrap v s) = snd (transformCachableValue v s)
   \<or> (\<exists>nv. transformCache s v = None \<and>
        (snd (wrap v s) = (snd (transformCachableValue v s))\<lparr>transformCache := (transformCache s)(v \<mapsto> nv)\<rparr>
         \<or> (\<exists>rc. snd (wrap v s) = (snd (transformCachableValue v s))
               \<lparr>transformCache := (transformCache s)(v \<mapsto> nv), reverseTransformCache := rc\<rparr>)))"
proof -
  obtain r s1 where t: "transformCachableValue v s = (r, s1)" by (cases "transformCachableValue v s")
  from tcv_cases[OF t] have c: "transformCache s1 = transformCache s" by simp
  show ?thesis
    using t c
    by (auto simp add: wrap_def weak_set_def weak_has_def split: sum.splits if_splits)
qed

lemma extends_caches:
  "extends s s1 \<Longrightarrow> transformCache s v = None \<Longrightarrow>
   extends s (s1\<lparr>transformCache := (transformCache s)(v \<mapsto> nv)\<rparr>)"
  "extends s s1 \<Longrightarrow> transformCache s v = None \<Longrightarrow>
   extends s (s1\<lparr>transformCache := (transformCache s)(v \<mapsto> nv), reverseTransformCache := rc\<rparr>)"
  by (auto simp add: extends_def)

lemma wrap_extends: "extends s (snd (wrap v s))"
  using wrap_state[of v s] promisifyRequest_extends[of s v] tcv_extends[of s v]
  by (auto simp add: extends_refl extends_caches)

lemma wrap_unchanged:
  "native (snd (wrap v s)) = native s"
  "idbProxyTraps (snd (wrap v s)) = idbProxyTraps s"
  "microtasks (snd (wrap v s)) = microtasks s"
  "cursorRequestMap (snd (wrap v s)) = cursorRequestMap s"
  "cachedMethods (snd (wrap v s)) = cachedMethods s"
  "methodMap (snd (wrap v s)) = methodMap s"
  "advanceResults (snd (wrap v s)) = advanceResults s"
  "proxiedCursorToOriginal (snd (wrap v s)) = proxiedCursorToOriginal s"
  using wrap_state[of v s] promisifyRequest_unchanged[of v s] tcv_unchanged[of v s]
  by auto


lemma extendsD:
  assumes "extends s s'"
  shows "next_id s \<le> next_id s'"
    and "\<And>p. p < next_id s \<Longrightarrow> promises s' p = promises s p"
    and "\<And>x w. transformCache s x = Some w \<Longrightarrow> transformCache s' x = Some w"
    and "\<And>x w. transactionDoneMap s x = Some w \<Longrightarrow> transactionDoneMap s' x = Some w"
    and "\<And>l. l \<in> set (listeners s) \<Longrightarrow> l \<in> set (listeners s')"
    and "\<And>l. l \<in> set (listeners s') \<Longrightarrow>
               l \<in> set (listeners s) \<or>
               (next_id s \<le> cb_promise (snd (snd l)) \<and> cb_promise (snd (snd l)) < next_id s')"
  using assms unfolding extends_def by blast+

lemma resolve_fields [simp]:
  "native (resolve p v s) = native s"
  "next_id (resolve p v s) = next_id s"
  "listeners (resolve p v s) = listeners s"
  "idbProxyTraps (resolve p v s) = idbProxyTraps s"
  "cursorRequestMap (resolve p v s) = cursorRequestMap s"
  "transactionDoneMap (resolve p v s) = transactionDoneMap s"
  "transformCache (resolve p v s) = transformCache s"
  "reverseTransformCache (resolve p v s) = reverseTransformCache s"
  by (simp_all add: resolve_def split: option.splits prod.splits pstate.splits)

lemma resolve_promises:
  "promises (resolve p v s) q =
     (if q = p then (case promises s p of Some (Pending, rs) \<Rightarrow> Some (Fulfilled v, []) | x \<Rightarrow> x)
      else promises s q)"
  by (simp add: resolve_def split: option.splits prod.splits pstate.splits)

lemma resolve_microtasks:
  "microtasks (resolve p v s) =
     (case promises s p of Some (Pending, rs) \<Rightarrow> microtasks s @ map (\<lambda>r. (r, v)) rs
      | x \<Rightarrow> microtasks s)"
  by (simp add: resolve_def split: option.splits prod.splits pstate.splits)

lemma reject_fields [simp]:
  "native (reject p v s) = native s"
  "next_id (reject p v s) = next_id s"
  "listeners (reject p v s) = listeners s"
  "microtasks (reject p v s) = microtasks s"
  "idbProxyTraps (reject p v s) = idbProxyTraps s"
  "cursorRequestMap (reject p v s) = cursorRequestMap s"
  "transactionDoneMap (reject p v s) = transactionDoneMap s"
  "transformCache (reject p v s) = transformCache s"
  "reverseTransformCache (reject p v s) = reverseTransformCache s"
  by (simp_all add: reject_def split: option.splits prod.splits pstate.splits)

lemma reject_promises:
  "promises (reject p v s) q =
     (if q = p then (case promises s p of Some (Pending, rs) \<Rightarrow> Some (Rejected v, []) | x \<Rightarrow> x)
      else promises s q)"
  by (simp add: reject_def split: option.splits prod.splits pstate.splits)

lemma removeEventListener_fields [simp]:
  "set (listeners (removeEventListener t ty cb s)) = set (listeners s) - {(t, ty, cb)}"
  "native (removeEventListener t ty cb s) = native s"
  "next_id (removeEventListener t ty cb s) = next_id s"
  "promises (removeEventListener t ty cb s) = promises s"
  "microtasks (removeEventListener t ty cb s) = microtasks s"
  "idbProxyTraps (removeEventListener t ty cb s) = idbProxyTraps s"
  "cursorRequestMap (removeEventListener t ty cb s) = cursorRequestMap s"
  "transactionDoneMap (removeEventListener t ty cb s) = transactionDoneMap s"
  "transformCache (removeEventListener t ty cb s) = transformCache s"
  "reverseTransformCache (removeEventListener t ty cb s) = reverseTransformCache s"
  by (auto simp add: removeEventListener_def)

lemma unlisten_request_fields [simp]:
  "set (listeners (unlisten_request p r s)) =
     set (listeners s) - {(r, ''success'', RequestSuccess p r), (r, ''error'', RequestError p r)}"
  "native (unlisten_request p r s) = native s"
  "next_id (unlisten_request p r s) = next_id s"
  "promises (unlisten_request p r s) = promises s"
  "microtasks (unlisten_request p r s) = microtasks s"
  "idbProxyTraps (unlisten_request p r s) = idbProxyTraps s"
  "cursorRequestMap (unlisten_request p r s) = cursorRequestMap s"
  "transactionDoneMap (unlisten_request p r s) = transactionDoneMap s"
  "transformCache (unlisten_request p r s) = transformCache s"
  "reverseTransformCache (unlisten_request p r s) = reverseTransformCache s"
  by (auto simp add: unlisten_request_def)

lemma unlisten_tx_fields [simp]:
  "set (listeners (unlisten_tx p t s)) =
     set (listeners s) - {(t, ''complete'', TxComplete p t), (t, ''error'', TxError p t),
                          (t, ''abort'', TxError p t)}"
  "native (unlisten_tx p t s) = native s"
  "next_id (unlisten_tx p t s) = next_id s"
  "promises (unlisten_tx p t s) = promises s"
  "microtasks (unlisten_tx p t s) = microtasks s"
  "idbProxyTraps (unlisten_tx p t s) = idbProxyTraps s"
  "cursorRequestMap (unlisten_tx p t s) = cursorRequestMap s"
  "transactionDoneMap (unlisten_tx p t s) = transactionDoneMap s"
  "transformCache (unlisten_tx p t s) = transformCache s"
  "reverseTransformCache (unlisten_tx p t s) = reverseTransformCache s"
  by (auto simp add: unlisten_tx_def)

lemma run_reaction_fields [simp]:
  "native (run_reaction r v s) = native s"
  "next_id (run_reaction r v s) = next_id s"
  "promises (run_reaction r v s) = promises s"
  "listeners (run_reaction r v s) = listeners s"
  "microtasks (run_reaction r v s) = microtasks s"
  "idbProxyTraps (run_reaction r v s) = idbProxyTraps s"
  "transactionDoneMap (run_reaction r v s) = transactionDoneMap s"
  "transformCache (run_reaction r v s) = transformCache s"
  "reverseTransformCache (run_reaction r v s) = reverseTransformCache s"
  by (cases r; simp)+

lemma foldl_reactions_fields:
  "native (foldl (\<lambda>s' (r, v). run_reaction r v s') s ms) = native s
   \<and> next_id (foldl (\<lambda>s' (r, v). run_reaction r v s') s ms) = next_id s
   \<and> promises (foldl (\<lambda>s' (r, v). run_reaction r v s') s ms) = promises s
   \<and> listeners (foldl (\<lambda>s' (r, v). run_reaction r v s') s ms) = listeners s
   \<and> microtasks (foldl (\<lambda>s' (r, v). run_reaction r v s') s ms) = microtasks s
   \<and> idbProxyTraps (foldl (\<lambda>s' (r, v). run_reaction r v s') s ms) = idbProxyTraps s
   \<and> transactionDoneMap (foldl (\<lambda>s' (r, v). run_reaction r v s') s ms) = transactionDoneMap s
   \<and> transformCache (foldl (\<lambda>s' (r, v). run_reaction r v s') s ms) = transformCache s
   \<and> reverseTransformCache (foldl (\<lambda>s' (r, v). run_reaction r v s') s ms) = reverseTransformCache s"
  by (induction ms arbitrary: s) (simp_all add: case_prod_beta)

lemma run_microtasks_fields [simp]:
  "native (run_microtasks s) = native s"
  "next_id (run_microtasks s) = next_id s"
  "promises (run_microtasks s) = promises s"
  "listeners (run_microtasks s) = listeners s"
  "microtasks (run_microtasks s) = []"
  "idbProxyTraps (run_microtasks s) = idbProxyTraps s"
  "transactionDoneMap (run_microtasks s) = transactionDoneMap s"
  "transformCache (run_microtasks s) = transformCache s"
  "reverseTransformCache (run_microtasks s) = reverseTransformCache s"
  by (simp_all add: run_microtasks_def foldl_reactions_fields)

text \<open>The state a listener leaves: what \<^verbatim>\<open>wrap\<close> made of it, and then either nothing
  more or the promise settled and the listeners of the promise removed.\<close>

lemma run_callback_state:
  "\<exists>s1. extends s s1 \<and> native s1 = native s \<and>
     (snd (run_callback E cb s) = s1
      \<or> (\<exists>w r. cb = RequestSuccess (cb_promise cb) r \<and>
            snd (run_callback E cb s) = unlisten_request (cb_promise cb) r (resolve (cb_promise cb) w s1))
      \<or> (\<exists>e r. cb = RequestError (cb_promise cb) r \<and>
            snd (run_callback E cb s) = unlisten_request (cb_promise cb) r (reject (cb_promise cb) e s1))
      \<or> (\<exists>t. cb = TxComplete (cb_promise cb) t \<and>
            snd (run_callback E cb s) = unlisten_tx (cb_promise cb) t (resolve (cb_promise cb) Undefined s1))
      \<or> (\<exists>e t. cb = TxError (cb_promise cb) t \<and>
            snd (run_callback E cb s) = unlisten_tx (cb_promise cb) t (reject (cb_promise cb) e s1)))"
proof (cases cb)
  case (RequestSuccess p r)
  let ?res = "native_get E (native s) r (Name ''result'')"
  obtain r0 s1 where w: "wrap ?res s = (r0, s1)" by (cases "wrap ?res s")
  have e: "extends s s1" "native s1 = native s"
    using wrap_extends[of s ?res] wrap_unchanged(1)[of ?res s] w by simp_all
  show ?thesis
  proof (cases r0)
    case (Inl x)
    with w e RequestSuccess show ?thesis by (intro exI[of _ s1]) simp
  next
    case (Inr v)
    with w e RequestSuccess show ?thesis
      by (intro exI[of _ s1]) (cases v; force)
  qed
qed (rule exI[of _ s]; force simp add: extends_refl)+


lemma extends_fresh:
  assumes "listeners_fresh s" and "extends s s'"
  shows "listeners_fresh s'"
  unfolding listeners_fresh_def
proof
  fix l assume "l \<in> set (listeners s')"
  with extendsD(6)[OF assms(2), of l] extendsD(1)[OF assms(2)] assms(1)
  show "cb_promise (snd (snd l)) < next_id s'"
    by (auto simp add: listeners_fresh_def)
qed

lemma run_callback_native: "native (snd (run_callback E cb s)) = native s"
  using run_callback_state[of s E cb] by auto

lemma run_callback_next_id: "next_id s \<le> next_id (snd (run_callback E cb s))"
  using run_callback_state[of s E cb] by (auto dest: extendsD(1))

lemma run_callback_promise_other:
  assumes "q \<noteq> cb_promise cb" and "q < next_id s"
  shows "promises (snd (run_callback E cb s)) q = promises s q"
  using run_callback_state[of s E cb] assms
  by (auto simp add: resolve_promises reject_promises dest: extendsD(2))

lemma run_callback_settled:
  assumes "promises s q = Some (st, rs)" and "st \<noteq> Pending" and "q < next_id s"
  shows "promises (snd (run_callback E cb s)) q = Some (st, rs)"
proof -
  from run_callback_state[of s E cb] obtain s1 where
    e: "extends s s1" and c: "snd (run_callback E cb s) = s1
      \<or> (\<exists>w r. snd (run_callback E cb s) = unlisten_request (cb_promise cb) r (resolve (cb_promise cb) w s1))
      \<or> (\<exists>e r. snd (run_callback E cb s) = unlisten_request (cb_promise cb) r (reject (cb_promise cb) e s1))
      \<or> (\<exists>t. snd (run_callback E cb s) = unlisten_tx (cb_promise cb) t (resolve (cb_promise cb) Undefined s1))
      \<or> (\<exists>e t. snd (run_callback E cb s) = unlisten_tx (cb_promise cb) t (reject (cb_promise cb) e s1))"
    by blast
  have p1: "promises s1 q = Some (st, rs)" using extendsD(2)[OF e assms(3)] assms(1) by simp
  from c show ?thesis
    using p1 assms(2) by (cases st) (auto simp add: resolve_promises reject_promises)
qed

lemma run_callback_listener_kept:
  assumes "l \<in> set (listeners s)" and "cb_promise (snd (snd l)) \<noteq> cb_promise cb"
  shows "l \<in> set (listeners (snd (run_callback E cb s)))"
  using run_callback_state[of s E cb] assms
  by (auto dest: extendsD(5))

lemma run_callback_listener_new:
  assumes "l \<in> set (listeners (snd (run_callback E cb s)))"
  shows "l \<in> set (listeners s) \<or>
         (next_id s \<le> cb_promise (snd (snd l)) \<and>
          cb_promise (snd (snd l)) < next_id (snd (run_callback E cb s)))"
  using run_callback_state[of s E cb] assms
  by (auto dest: extendsD(6))


lemma run_callback_fresh:
  assumes "listeners_fresh s"
  shows "listeners_fresh (snd (run_callback E cb s))"
  unfolding listeners_fresh_def
proof
  fix l assume "l \<in> set (listeners (snd (run_callback E cb s)))"
  from run_callback_listener_new[OF this] assms run_callback_next_id[of s E cb]
  show "cb_promise (snd (snd l)) < next_id (snd (run_callback E cb s))"
    by (auto simp add: listeners_fresh_def)
qed

lemma run_listeners_stable:
  assumes "R s"
    and "\<And>cb s. R s \<Longrightarrow> R (snd (run_callback E cb s))"
    and "\<And>s. R s \<Longrightarrow> R (run_microtasks s)"
  shows "R (snd (run_listeners E ls s))"
  using assms(1)
proof (induction ls arbitrary: s)
  case Nil
  then show ?case by simp
next
  case (Cons l ls)
  show ?case
  proof (cases "l \<in> set (listeners s)")
    case True
    have "R (run_microtasks (snd (run_callback E (snd (snd l)) s)))"
      using Cons.prems assms(2,3) by blast
    from Cons.IH[OF this] True show ?thesis
      by (simp add: split_beta)
  next
    case False
    with Cons show ?thesis by simp
  qed
qed

text \<open>
  One listener among those of a dispatch. As long as the state satisfies \<open>Q\<close>, which the
  other listeners and the microtasks keep, the listener stays registered; when it runs it
  establishes \<open>R\<close>, which every listener and the microtasks keep.
\<close>

lemma run_listeners_fires:
  assumes "l \<in> set ls" and "l \<in> set (listeners s)" and "Q s"
    and others: "\<forall>l' \<in> set ls. l' \<noteq> l \<longrightarrow> cb_promise (snd (snd l')) \<noteq> cb_promise (snd (snd l))"
    and Qcb: "\<And>cb s. Q s \<Longrightarrow> cb_promise cb \<noteq> cb_promise (snd (snd l)) \<Longrightarrow>
                Q (snd (run_callback E cb s))"
    and Qmt: "\<And>s. Q s \<Longrightarrow> Q (run_microtasks s)"
    and fire: "\<And>s. Q s \<Longrightarrow> l \<in> set (listeners s) \<Longrightarrow> R (snd (run_callback E (snd (snd l)) s))"
    and Rcb: "\<And>cb s. R s \<Longrightarrow> R (snd (run_callback E cb s))"
    and Rmt: "\<And>s. R s \<Longrightarrow> R (run_microtasks s)"
  shows "R (snd (run_listeners E ls s))"
  using assms(1,2,3,4)
proof (induction ls arbitrary: s)
  case Nil
  then show ?case by simp
next
  case (Cons l' ls)
  show ?case
  proof (cases "l' = l")
    case True
    have "R (run_microtasks (snd (run_callback E (snd (snd l)) s)))"
      using fire[OF Cons.prems(3) Cons.prems(2)] Rmt by blast
    then have "R (snd (run_listeners E ls (run_microtasks (snd (run_callback E (snd (snd l)) s)))))"
      using Rcb Rmt by (rule run_listeners_stable)
    with True Cons.prems(2) show ?thesis by (simp add: split_beta)
  next
    case False
    with Cons.prems have lin: "l \<in> set ls" by simp
    from Cons.prems(4) have oth: "\<forall>l' \<in> set ls. l' \<noteq> l \<longrightarrow>
        cb_promise (snd (snd l')) \<noteq> cb_promise (snd (snd l))" by simp
    show ?thesis
    proof (cases "l' \<in> set (listeners s)")
      case True
      from Cons.prems(4) False have ne: "cb_promise (snd (snd l')) \<noteq> cb_promise (snd (snd l))"
        by simp
      let ?s1 = "run_microtasks (snd (run_callback E (snd (snd l')) s))"
      have q1: "Q ?s1" using Qcb[OF Cons.prems(3) ne] Qmt by blast
      have l1: "l \<in> set (listeners ?s1)"
        using run_callback_listener_kept[OF Cons.prems(2), of "snd (snd l')" E] ne by simp
      from Cons.IH[OF lin l1 q1 oth] True show ?thesis by (simp add: split_beta)
    next
      case nin: False
      from Cons.IH[OF lin Cons.prems(2) Cons.prems(3) oth] nin show ?thesis by simp
    qed
  qed
qed

section \<open>Properties of event dispatch\<close>

lemma entries_uniq:
  "l1 \<in> entries cb \<Longrightarrow> l2 \<in> entries cb \<Longrightarrow> fst l1 = fst l2 \<Longrightarrow> fst (snd l1) = fst (snd l2)
   \<Longrightarrow> l1 = l2"
  by (cases cb) auto

lemma run_callback_unlistens:
  assumes "fst (run_callback E cb s) = None"
  shows "set (listeners (snd (run_callback E cb s))) \<inter> entries cb = {}"
proof (cases cb)
  case (RequestSuccess p r)
  let ?res = "native_get E (native s) r (Name ''result'')"
  obtain r0 s1 where w: "wrap ?res s = (r0, s1)" by (cases "wrap ?res s")
  show ?thesis
  proof (cases r0)
    case (Inl x)
    with w assms RequestSuccess show ?thesis by simp
  next
    case (Inr v)
    with w assms RequestSuccess show ?thesis by (cases v) auto
  qed
qed auto

lemma dispatch_fires:
  assumes reg: "(t, ty, cb) \<in> set (listeners s)" and p: "cb_promise cb = p" and lt: "p < next_id s"
    and pend: "promises s p = Some (Pending, rs)"
    and only: "\<forall>l' \<in> set (listeners s). cb_promise (snd (snd l')) = p \<longrightarrow> l' \<in> entries cb"
    and I: "I s"
    and Icb: "\<And>cb s. I s \<Longrightarrow> I (snd (run_callback E cb s))"
    and Imt: "\<And>s. I s \<Longrightarrow> I (run_microtasks s)"
    and fire: "\<And>s'. I s' \<Longrightarrow> p < next_id s' \<Longrightarrow> promises s' p = Some (Pending, rs) \<Longrightarrow>
                 fst (run_callback E cb s') = None \<and> T (promises (snd (run_callback E cb s')) p)"
    and T: "\<And>x. T x \<Longrightarrow> \<exists>st rs. x = Some (st, rs) \<and> st \<noteq> Pending"
  shows "T (promises (snd (dispatchEvent E t ty s)) p)
       \<and> (\<forall>l \<in> set (listeners (snd (dispatchEvent E t ty s))). cb_promise (snd (snd l)) \<noteq> p)
       \<and> I (snd (dispatchEvent E t ty s))"
proof -
  let ?l = "(t, ty, cb)"
  let ?Q = "\<lambda>s'. I s' \<and> p < next_id s' \<and> promises s' p = Some (Pending, rs)
              \<and> (\<forall>l' \<in> set (listeners s'). cb_promise (snd (snd l')) = p \<longrightarrow> l' \<in> entries cb)"
  let ?R = "\<lambda>s'. T (promises s' p)
              \<and> (\<forall>l' \<in> set (listeners s'). cb_promise (snd (snd l')) \<noteq> p)
              \<and> I s' \<and> p < next_id s'"
  let ?ls = "filter (\<lambda>l. fst l = t \<and> fst (snd l) = ty) (listeners s)"
  have lin: "?l \<in> entries cb" using only reg p by auto
  have a1: "?l \<in> set ?ls" using reg by simp
  have a3: "?Q s" using I lt pend only by simp
  have a4: "\<forall>l' \<in> set ?ls. l' \<noteq> ?l \<longrightarrow> cb_promise (snd (snd l')) \<noteq> cb_promise (snd (snd ?l))"
  proof (intro ballI impI notI)
    fix l' assume m: "l' \<in> set ?ls" and ne: "l' \<noteq> ?l"
      and eq: "cb_promise (snd (snd l')) = cb_promise (snd (snd ?l))"
    from m eq p only have "l' \<in> entries cb" by auto
    from entries_uniq[OF this lin] m have "l' = ?l" by simp
    with ne show False by simp
  qed
  have Qcb: "\<And>cb' s'. ?Q s' \<Longrightarrow> cb_promise cb' \<noteq> cb_promise (snd (snd ?l)) \<Longrightarrow>
                ?Q (snd (run_callback E cb' s'))"
  proof -
    fix cb' s' assume q: "?Q s'" and ne: "cb_promise cb' \<noteq> cb_promise (snd (snd ?l))"
    have n: "p < next_id (snd (run_callback E cb' s'))"
      using q run_callback_next_id[of s' E cb'] by simp
    have pr: "promises (snd (run_callback E cb' s')) p = Some (Pending, rs)"
      using run_callback_promise_other[of p cb' s' E] q ne p by simp
    have ls: "\<forall>l' \<in> set (listeners (snd (run_callback E cb' s'))).
                cb_promise (snd (snd l')) = p \<longrightarrow> l' \<in> entries cb"
    proof (intro ballI impI)
      fix l' assume "l' \<in> set (listeners (snd (run_callback E cb' s')))"
        and e: "cb_promise (snd (snd l')) = p"
      from run_callback_listener_new[OF this(1)] e q show "l' \<in> entries cb" by auto
    qed
    from Icb q n pr ls show "?Q (snd (run_callback E cb' s'))" by blast
  qed
  have Qmt: "\<And>s'. ?Q s' \<Longrightarrow> ?Q (run_microtasks s')" using Imt by simp
  have fireR: "\<And>s'. ?Q s' \<Longrightarrow> ?l \<in> set (listeners s') \<Longrightarrow>
                 ?R (snd (run_callback E (snd (snd ?l)) s'))"
  proof -
    fix s' assume q: "?Q s'" and "?l \<in> set (listeners s')"
    from fire[of s'] q have f: "fst (run_callback E cb s') = None"
      and t: "T (promises (snd (run_callback E cb s')) p)" by auto
    have n: "p < next_id (snd (run_callback E cb s'))"
      using q run_callback_next_id[of s' E cb] by simp
    have ls: "\<forall>l' \<in> set (listeners (snd (run_callback E cb s'))). cb_promise (snd (snd l')) \<noteq> p"
    proof (intro ballI notI)
      fix l' assume m: "l' \<in> set (listeners (snd (run_callback E cb s')))"
        and e: "cb_promise (snd (snd l')) = p"
      from run_callback_listener_new[OF m] e q have "l' \<in> entries cb" by auto
      with run_callback_unlistens[OF f] m show False by auto
    qed
    from t ls Icb q n show "?R (snd (run_callback E (snd (snd ?l)) s'))" by simp
  qed
  have Rcb: "\<And>cb' s'. ?R s' \<Longrightarrow> ?R (snd (run_callback E cb' s'))"
  proof -
    fix cb' s' assume r: "?R s'"
    then obtain st rs' where x: "promises s' p = Some (st, rs')" "st \<noteq> Pending" using T by blast
    have "promises (snd (run_callback E cb' s')) p = promises s' p"
      using run_callback_settled[OF x] r x by simp
    then have t: "T (promises (snd (run_callback E cb' s')) p)" using r by simp
    have n: "p < next_id (snd (run_callback E cb' s'))"
      using r run_callback_next_id[of s' E cb'] by simp
    have ls: "\<forall>l' \<in> set (listeners (snd (run_callback E cb' s'))). cb_promise (snd (snd l')) \<noteq> p"
    proof (intro ballI notI)
      fix l' assume m: "l' \<in> set (listeners (snd (run_callback E cb' s')))"
        and e: "cb_promise (snd (snd l')) = p"
      from run_callback_listener_new[OF m] e r show False by auto
    qed
    from t ls Icb r n show "?R (snd (run_callback E cb' s'))" by blast
  qed
  have Rmt: "\<And>s'. ?R s' \<Longrightarrow> ?R (run_microtasks s')" using Imt by simp
  have "?R (snd (run_listeners E ?ls s))"
    by (rule run_listeners_fires[where l = ?l and Q = ?Q, OF a1 reg a3 a4 Qcb Qmt fireR Rcb Rmt])
  then show ?thesis by (simp add: dispatchEvent_def)
qed


lemma traps_get_done:
  "traps_get E ts (Handle IDBTransaction i) (Name ''done'') r s =
     (Inr (weak_get (transactionDoneMap s) (Handle IDBTransaction i)), s)"
  by (induction ts) (simp_all add: isIteratorProp_def instanceOfAny_def potentialDatabaseExtra_def)

text \<open>The state after the first \<^verbatim>\<open>wrap\<close> of a transaction.\<close>

lemma wrap_tx_new:
  assumes "transformCache s (Handle IDBTransaction i) = None"
    and "transactionDoneMap s (Handle IDBTransaction i) = None"
  shows "wrap (Handle IDBTransaction i) s =
     (Inr (Proxy (Suc (next_id s)) (Handle IDBTransaction i) (IdbProxyTraps (idbProxyTraps s))),
      s\<lparr>next_id := Suc (Suc (next_id s)),
        promises := (promises s)(next_id s \<mapsto> (Pending, [])),
        listeners := listeners
          (addEventListener (Handle IDBTransaction i) ''abort'' (TxError (next_id s) (Handle IDBTransaction i))
            (addEventListener (Handle IDBTransaction i) ''error'' (TxError (next_id s) (Handle IDBTransaction i))
              (addEventListener (Handle IDBTransaction i) ''complete''
                 (TxComplete (next_id s) (Handle IDBTransaction i)) s))),
        transactionDoneMap := (transactionDoneMap s)(Handle IDBTransaction i \<mapsto> Promise (next_id s)),
        transformCache := (transformCache s)(Handle IDBTransaction i \<mapsto>
           Proxy (Suc (next_id s)) (Handle IDBTransaction i) (IdbProxyTraps (idbProxyTraps s))),
        reverseTransformCache := (reverseTransformCache s)
          (Proxy (Suc (next_id s)) (Handle IDBTransaction i) (IdbProxyTraps (idbProxyTraps s)) \<mapsto>
             Handle IDBTransaction i)\<rparr>)"
proof -
  have k: "IDBTransaction \<in> set getIdbProxyableTypes" by (simp add: getIdbProxyableTypes_def)
  show ?thesis using assms by (simp add: wrap_handle[OF k] cacheDone_raw Let_def)
qed

lemma tx_done_dispatch:
  fixes s1 :: "'n state"
  assumes reg: "(t, ty, cb) \<in> set (listeners s1)" and cb: "cb \<in> {TxComplete p t, TxError p t}"
    and lt: "p < next_id s1" and pend: "promises s1 p = Some (Pending, rs)"
    and only: "\<forall>l' \<in> set (listeners s1). cb_promise (snd (snd l')) = p \<longrightarrow> l' \<in> entries cb"
    and n: "native s1 = n"
  shows "promises (snd (dispatchEvent E t ty s1)) p =
           Some (if cb = TxComplete p t then Fulfilled Undefined
                 else Rejected (native_get E n t (Name ''error'')), [])
       \<and> (\<forall>l \<in> set (listeners (snd (dispatchEvent E t ty s1))). cb_promise (snd (snd l)) \<noteq> p)"
proof -
  let ?X = "if cb = TxComplete p t then Fulfilled Undefined
            else Rejected (native_get E n t (Name ''error''))"
  have p: "cb_promise cb = p" using cb by auto
  have "(\<lambda>x. x = Some (?X, [])) (promises (snd (dispatchEvent E t ty s1)) p)
       \<and> (\<forall>l \<in> set (listeners (snd (dispatchEvent E t ty s1))). cb_promise (snd (snd l)) \<noteq> p)
       \<and> (\<lambda>s'. native s' = n) (snd (dispatchEvent E t ty s1))"
  proof (rule dispatch_fires[OF reg p lt pend only])
    show "native s1 = n" by (rule n)
  next
    fix cb' and s' :: "'n state" assume "native s' = n"
    then show "native (snd (run_callback E cb' s')) = n" by (simp add: run_callback_native)
  next
    fix s' :: "'n state" assume "native s' = n"
    then show "native (run_microtasks s') = n" by simp
  next
    fix s' :: "'n state"
    assume "native s' = n" "p < next_id s'" "promises s' p = Some (Pending, rs)"
    then show "fst (run_callback E cb s') = None \<and>
               promises (snd (run_callback E cb s')) p = Some (?X, [])"
      using cb by (auto simp add: resolve_promises reject_promises)
  next
    fix x :: "(pstate \<times> reaction list) option" assume "x = Some (?X, [])"
    then show "\<exists>st rs. x = Some (st, rs) \<and> st \<noteq> Pending" by auto
  qed
  then show ?thesis by simp
qed

lemma listeners_fresh_init: "listeners_fresh (init n)"
  by (simp add: listeners_fresh_def init_def addTraps_def empty_state_def)

lemma wrap_fresh: "listeners_fresh s \<Longrightarrow> listeners_fresh (snd (wrap v s))"
  by (erule extends_fresh) (rule wrap_extends)




section \<open>Properties of the future adapter\<close>

text \<open>
  \<^verbatim>\<open>wrap(NaN)\<close> throws. \<^verbatim>\<open>NaN\<close> is not a request and not a key of \<^verbatim>\<open>transformCache\<close>,
  \<^verbatim>\<open>transformCachableValue\<close> returns it as it is, and \<^verbatim>\<open>newValue !== value\<close> is true of
  \<^verbatim>\<open>NaN\<close>, so \<^verbatim>\<open>transformCache.set(NaN, NaN)\<close> is reached and a \<^verbatim>\<open>WeakMap\<close> refuses the key.
\<close>

lemma wrap_NaN: "wrap NaN s = (Inl TypeError, s)"
  by (simp add: wrap_def weak_has_def transformCachableValue_def instanceOfAny_def
      getIdbProxyableTypes_def strict_neq_def weak_set_def)



text \<open>The \<^verbatim>\<open>error\<close> event of a request whose promise is pending: the promise is rejected
  with \<^verbatim>\<open>request.error\<close> as it is, and none of its listeners stays registered.\<close>

lemma request_error_dispatch:
  assumes reg: "(r, ''error'', RequestError p r) \<in> set (listeners s)"
    and lt: "p < next_id s" and pend: "promises s p = Some (Pending, rs)"
    and only: "\<forall>l' \<in> set (listeners s). cb_promise (snd (snd l')) = p \<longrightarrow>
                 l' \<in> entries (RequestError p r)"
  shows "promises (snd (dispatchEvent E r ''error'' s)) p =
           Some (Rejected (native_get E (native s) r (Name ''error'')), [])
       \<and> (\<forall>l \<in> set (listeners (snd (dispatchEvent E r ''error'' s))). cb_promise (snd (snd l)) \<noteq> p)"
proof -
  let ?e = "native_get E (native s) r (Name ''error'')"
  have p: "cb_promise (RequestError p r) = p" by simp
  have "(\<lambda>x. x = Some (Rejected ?e, [])) (promises (snd (dispatchEvent E r ''error'' s)) p)
       \<and> (\<forall>l \<in> set (listeners (snd (dispatchEvent E r ''error'' s))). cb_promise (snd (snd l)) \<noteq> p)
       \<and> (\<lambda>s'. native s' = native s) (snd (dispatchEvent E r ''error'' s))"
  proof (rule dispatch_fires[OF reg p lt pend only])
    show "native s = native s" by simp
  next
    fix cb' and s' :: "'a state" assume "native s' = native s"
    then show "native (snd (run_callback E cb' s')) = native s" by (simp add: run_callback_native)
  next
    fix s' :: "'a state" assume "native s' = native s"
    then show "native (run_microtasks s') = native s" by simp
  next
    fix s' :: "'a state"
    assume "native s' = native s" "p < next_id s'" "promises s' p = Some (Pending, rs)"
    then show "fst (run_callback E (RequestError p r) s') = None \<and>
        promises (snd (run_callback E (RequestError p r) s')) p = Some (Rejected ?e, [])"
      by (simp add: reject_promises)
  next
    fix x :: "(pstate \<times> reaction list) option" assume "x = Some (Rejected ?e, [])"
    then show "\<exists>st rs. x = Some (st, rs) \<and> st \<noteq> Pending" by auto
  qed
  then show ?thesis by simp
qed

text \<open>The state after \<^verbatim>\<open>wrap\<close> of a request in the initial state.\<close>

lemma wrap_request_init:
  "snd (wrap (Handle IDBRequest i) (init n)) =
     (init n)\<lparr>next_id := 2,
       promises := [1 \<mapsto> (Pending, [CacheCursorRequest (Handle IDBRequest i)])],
       listeners := [(Handle IDBRequest i, ''success'', RequestSuccess 1 (Handle IDBRequest i)),
                     (Handle IDBRequest i, ''error'', RequestError 1 (Handle IDBRequest i))],
       reverseTransformCache := [Promise 1 \<mapsto> Handle IDBRequest i]\<rparr>"
  by (simp add: wrap_def promisifyRequest_raw init_def addTraps_def empty_state_def
      addEventListener_def)

text \<open>
  Claim C6 at a request whose result is \<^verbatim>\<open>NaN\<close> (a stored value may be \<^verbatim>\<open>NaN\<close>): the
  \<^verbatim>\<open>success\<close> listener throws a \<^verbatim>\<open>TypeError\<close> inside \<^verbatim>\<open>wrap\<close>, before \<^verbatim>\<open>resolve\<close> and
  \<^verbatim>\<open>unlisten\<close>; the promise stays pending and both listeners stay registered. For every
  other result, \<open>request_success_dispatch\<close> and \<open>request_error_dispatch\<close> above give what
  the claim says.
\<close>

theorem success_with_nan_result_never_settles:
  "fst (wrap (Handle IDBRequest 10) (init (demo_native(10 := NaN)))) = Inr (Promise 1)
   \<and> native_get demo_engine (demo_native(10 := NaN)) (Handle IDBRequest 10) (Name ''result'') = NaN
   \<and> dispatchEvent demo_engine (Handle IDBRequest 10) ''success''
        (snd (wrap (Handle IDBRequest 10) (init (demo_native(10 := NaN))))) =
       ([Some TypeError], snd (wrap (Handle IDBRequest 10) (init (demo_native(10 := NaN)))))
   \<and> promises (snd (wrap (Handle IDBRequest 10) (init (demo_native(10 := NaN))))) 1 =
       Some (Pending, [CacheCursorRequest (Handle IDBRequest 10)])
   \<and> listeners (snd (wrap (Handle IDBRequest 10) (init (demo_native(10 := NaN))))) =
       [(Handle IDBRequest 10, ''success'', RequestSuccess 1 (Handle IDBRequest 10)),
        (Handle IDBRequest 10, ''error'', RequestError 1 (Handle IDBRequest 10))]"
proof -
  let ?n = "demo_native(10 := NaN)"
  let ?s1 = "snd (wrap (Handle IDBRequest 10) (init ?n))"
  have f: "fst (wrap (Handle IDBRequest 10) (init ?n)) = Inr (Promise 1)"
    by (simp add: wrap_def promisifyRequest_raw init_def addTraps_def empty_state_def)
  have r: "native_get demo_engine ?n (Handle IDBRequest 10) (Name ''result'') = NaN"
    by (simp add: demo_engine_def)
  have nat: "native ?s1 = ?n" by (simp add: wrap_unchanged init_def addTraps_def empty_state_def)
  have ls: "listeners ?s1 =
       [(Handle IDBRequest 10, ''success'', RequestSuccess 1 (Handle IDBRequest 10)),
        (Handle IDBRequest 10, ''error'', RequestError 1 (Handle IDBRequest 10))]"
    by (simp add: wrap_request_init)
  have pr: "promises ?s1 1 = Some (Pending, [CacheCursorRequest (Handle IDBRequest 10)])"
    by (simp add: wrap_request_init)
  have mt: "microtasks ?s1 = []"
    by (simp add: wrap_unchanged init_def addTraps_def empty_state_def)
  have rm: "run_microtasks ?s1 = ?s1"
    by (simp add: run_microtasks_def mt)
  have cb: "run_callback demo_engine (RequestSuccess (Suc 0) (Handle IDBRequest 10)) ?s1 =
      (Some TypeError, ?s1)"
    unfolding run_callback.simps nat r wrap_NaN by simp
  have d: "dispatchEvent demo_engine (Handle IDBRequest 10) ''success'' ?s1 = ([Some TypeError], ?s1)"
    unfolding dispatchEvent_def ls by (simp add: ls cb rm del: run_callback.simps)
  from f r d pr ls show ?thesis by blast
qed

section \<open>Soundness of the cache\<close>

lemma cache_sound_init: "cache_sound (init n)"
  by (simp add: cache_sound_def init_def addTraps_def empty_state_def)

lemma cache_inv_native [simp]: "cache_inv (s\<lparr>native := n\<rparr>) = cache_inv s"
  by (simp add: cache_inv_def)

lemma cache_sound_native [simp]: "cache_sound (s\<lparr>native := n\<rparr>) = cache_sound s"
  by (simp add: cache_sound_def)

lemma tcv_wrapper:
  assumes "transformCachableValue v s = (Inr nv, s1)"
  shows "nv = v \<or> is_wrapper_of v nv"
  using assms
  by (cases "cacheDonePromiseForTransaction v s")
     (auto simp add: transformCachableValue_def wrapFunction_def closure_for_def
       split: if_splits sum.splits)

lemma is_wrapper_object: "is_wrapper_of v w \<Longrightarrow> is_object w"
  by (cases "(v, w)" rule: is_wrapper_of.cases) simp_all

lemma wrap_new_entry:
  assumes "transformCache (snd (wrap v s)) x = Some w" and "transformCache s x \<noteq> Some w"
  shows "x = v \<and> is_wrapper_of v w \<and> fst (wrap v s) = Inr w \<and> transformCache s v = None"
proof -
  obtain r s1 where t: "transformCachableValue v s = (r, s1)" by (cases "transformCachableValue v s")
  from tcv_cases[OF t] have c: "transformCache s1 = transformCache s" by simp
  have nr: "\<not> instanceOf v IDBRequest"
    using assms promisifyRequest_unchanged(10)[of v s] by (auto simp add: wrap_def)
  have nc: "\<not> weak_has (transformCache s) v" using assms nr by (auto simp add: wrap_def)
  show ?thesis
  proof (cases r)
    case (Inl e)
    with assms nr nc t c show ?thesis by (simp add: wrap_def)
  next
    case (Inr nv)
    from tcv_wrapper[OF t[unfolded Inr]] have wr: "nv = v \<or> is_wrapper_of v nv" .
    from assms nr nc t c Inr wr show ?thesis
      by (auto simp add: wrap_def weak_set_def weak_has_def strict_neq_def
          dest: is_wrapper_object split: if_splits)
  qed
qed

lemma wrap_cache_sound:
  assumes "cache_sound s"
  shows "cache_sound (snd (wrap v s))"
  unfolding cache_sound_def
proof (intro allI impI)
  fix x w assume a: "transformCache (snd (wrap v s)) x = Some w"
  show "is_wrapper_of x w"
  proof (cases "transformCache s x = Some w")
    case True
    with assms show ?thesis by (simp add: cache_sound_def)
  next
    case False
    from wrap_new_entry[OF a False] show ?thesis by simp
  qed
qed

lemma wrap_reverse_kept:
  assumes inv: "cache_inv s" and r: "reverseTransformCache s x = Some y"
  shows "reverseTransformCache (snd (wrap v s)) x = Some y"
proof (cases "reverseTransformCache (snd (wrap v s)) x = reverseTransformCache s x")
  case True
  with r show ?thesis by simp
next
  case False
  with wrap_reverse[of v s x] have f: "fst (wrap v s) = Inr x" by simp
  have al: "allocated (next_id s) x" using inv r by (rule cache_invD2)
  have ob: "is_object x" using al by (rule allocated_object)
  show ?thesis
  proof (cases "instanceOf v IDBRequest")
    case True
    show ?thesis
    proof (cases "is_raw v")
      case True
      then obtain k i where "v = Handle k i" using is_raw_Handle by blast
      with \<open>instanceOf v IDBRequest\<close> f al show ?thesis by (auto simp add: wrap_def promisifyRequest_raw)
    next
      case False
      with \<open>instanceOf v IDBRequest\<close> f show ?thesis by (simp add: wrap_def promisifyRequest_nonraw)
    qed
  next
    case nr: False
    obtain r0 s1 where t: "transformCachableValue v s = (r0, s1)"
      by (cases "transformCachableValue v s")
    from tcv_cases[OF t] have c: "reverseTransformCache s1 = reverseTransformCache s"
      and fr: "case r0 of Inl e \<Rightarrow> True
               | Inr nv \<Rightarrow> nv = v \<or> (allocated (next_id s1) nv \<and> \<not> allocated (next_id s) nv)"
      by simp_all
    show ?thesis
    proof (cases "weak_has (transformCache s) v")
      case True
      with nr r show ?thesis by (simp add: wrap_def)
    next
      case nc: False
      from nr nc t f have r0: "r0 = Inr x"
        by (auto simp add: wrap_def weak_set_def split: sum.splits if_splits)
      with fr al have "x = v" by auto
      with nr nc t r0 c r ob show ?thesis
        by (auto simp add: wrap_def weak_set_def strict_neq_def split: sum.splits if_splits)
    qed
  qed
qed

lemma not_less_Nil_string: "\<not> (x :: string) < []"
  by simp

lemma sorted_second_nonempty:
  assumes "sorted_wrt (<) (names :: string list)" and "Suc 0 < length names"
  shows "names ! Suc 0 \<noteq> []"
proof -
  from assms(2) obtain a b rest where n: "names = a # b # rest"
    by (cases names; cases "tl names") auto
  with assms(1) have "a < b" by simp
  then have "b \<noteq> []" by auto
  with n show ?thesis by simp
qed

section \<open>Calls through a proxy\<close>

lemma wrap_handle_unwrap:
  assumes k: "k \<in> set getIdbProxyableTypes" and inv: "cache_inv s"
  shows "\<exists>w. fst (wrap (Handle k i) s) = Inr w
           \<and> transformCache (snd (wrap (Handle k i) s)) (Handle k i) = Some w
           \<and> unwrap w (snd (wrap (Handle k i) s)) = Handle k i"
proof (cases "transformCache s (Handle k i)")
  case None
  then show ?thesis
    by (simp add: wrap_handle[OF k] Let_def unwrap_def weak_get_def)
next
  case (Some w)
  have rw: "reverseTransformCache s w = Some (Handle k i)" using inv Some by (rule cache_invD1)
  have "is_object w" using cache_invD2[OF inv rw] by (rule allocated_object)
  with rw Some show ?thesis
    by (simp add: wrap_handle[OF k] unwrap_def weak_get_def)
qed

lemma traps_get_passes:
  assumes "\<not> isIteratorProp t prop"
    and "potentialDatabaseExtra t prop (js_has E (native s) t prop) = Inr False"
  shows "traps_get E ts t prop r s = traps_get E BaseTraps t prop r s"
  using assms by (induction ts) simp_all

lemma wrap_fn:
  "wrap (Fn g) s =
     (if transformCache s (Fn g) \<noteq> None then (Inr (the (transformCache s (Fn g))), s)
      else (Inr (Func (next_id s) (closure_for (Fn g))),
            s\<lparr>next_id := Suc (next_id s),
              transformCache := (transformCache s)(Fn g \<mapsto> Func (next_id s) (closure_for (Fn g))),
              reverseTransformCache :=
                (reverseTransformCache s)(Func (next_id s) (closure_for (Fn g)) \<mapsto> Fn g)\<rparr>))"
  by (auto simp add: wrap_def weak_has_def weak_get_def transformCachableValue_def wrapFunction_def
      closure_for_def strict_neq_def weak_set_def)

lemma wrap_fn_sound:
  assumes "cache_sound s"
  shows "\<exists>k. fst (wrap (Fn g) s) = Inr (Func k (closure_for (Fn g)))"
proof (cases "transformCache s (Fn g)")
  case None
  then show ?thesis by (simp add: wrap_fn)
next
  case (Some w)
  with assms have "is_wrapper_of (Fn g) w" by (simp add: cache_sound_def)
  then obtain k where "w = Func k (closure_for (Fn g))"
    by (cases "(Fn g, w)" rule: is_wrapper_of.cases) auto
  with Some show ?thesis by (simp add: wrap_fn)
qed

text \<open>
  Calling a raw method through a proxy of this module, when the handler chain lets the
  property through to the base handler: the raw function is applied to the raw target with
  the same arguments, what it throws is thrown, and what it returns is wrapped.
\<close>

lemma call_wrapped_method:
  assumes inv: "cache_inv s" and snd: "cache_sound s"
    and rev: "reverseTransformCache s (Proxy j (Handle k i) (IdbProxyTraps ts)) = Some (Handle k i)"
    and nit: "\<not> isIteratorProp (Handle k i) (Name m)"
    and ndb: "potentialDatabaseExtra (Handle k i) (Name m)
                (js_has E (native s) (Handle k i) (Name m)) = Inr False"
    and special: "k = IDBTransaction \<longrightarrow> m \<noteq> ''done'' \<and> m \<noteq> ''store''"
    and fn: "native_get E (native s) (Handle k i) (Name m) = Fn g"
    and adv: "Fn g \<notin> set getCursorAdvanceMethods"
  shows "call_method E (Proxy j (Handle k i) (IdbProxyTraps ts)) (Name m) args s =
     (case native_apply E (Fn g) (Handle k i) args (native s) of
        (Inl e, n') \<Rightarrow> (Inl (Thrown e), (snd (wrap (Fn g) s))\<lparr>native := n'\<rparr>)
      | (Inr v, n') \<Rightarrow> wrap v ((snd (wrap (Fn g) s))\<lparr>native := n'\<rparr>))"
proof -
  let ?P = "Proxy j (Handle k i) (IdbProxyTraps ts)"
  let ?sf = "snd (wrap (Fn g) s)"
  from wrap_fn_sound[OF snd, of g] adv obtain kf where
    w: "fst (wrap (Fn g) s) = Inr (Func kf (WrappedFunction (Fn g)))"
    by (auto simp add: closure_for_def)
  have get: "js_get E ?P (Name m) s = (Inr (Func kf (WrappedFunction (Fn g))), ?sf)"
    using traps_get_passes[OF nit ndb, of ts ?P] special fn w
    by (cases "wrap (Fn g) s") auto
  have r: "reverseTransformCache ?sf ?P = Some (Handle k i)"
    using inv rev by (rule wrap_reverse_kept)
  have n: "native ?sf = native s" by (simp add: wrap_unchanged)
  show ?thesis
    unfolding call_method_def get
    by (simp add: unwrap_def weak_get_def r apply_raw_def n split: prod.splits sum.splits)
qed


lemma not_iterator_tx [simp]: "\<not> isIteratorProp (Handle IDBTransaction i) prop"
  by (simp add: isIteratorProp_def instanceOfAny_def)

lemma not_extra_tx [simp]:
  "potentialDatabaseExtra (Handle IDBTransaction i) prop x = Inr False"
  by (simp add: potentialDatabaseExtra_def)

text \<open>Reading \<^verbatim>\<open>store\<close> on a wrapped transaction, under any handler chain.\<close>

lemma js_get_store:
  "js_get E (Proxy j (Handle IDBTransaction i) (IdbProxyTraps ts)) (Name ''store'') s =
     (if truthy (item (objectStoreNames E (native s) (Handle IDBTransaction i)) 1)
      then (Inr Undefined, s)
      else call_method E (Proxy j (Handle IDBTransaction i) (IdbProxyTraps ts)) (Name ''objectStore'')
             [item (objectStoreNames E (native s) (Handle IDBTransaction i)) 0] s)"
proof -
  have a: "js_get E (Proxy j (Handle IDBTransaction i) (IdbProxyTraps ts)) (Name ''store'') s =
      traps_get E BaseTraps (Handle IDBTransaction i) (Name ''store'')
        (Proxy j (Handle IDBTransaction i) (IdbProxyTraps ts)) s"
    using traps_get_passes[of "Handle IDBTransaction i" "Name ''store''" E s ts
        "Proxy j (Handle IDBTransaction i) (IdbProxyTraps ts)"]
    by simp
  show ?thesis unfolding a call_method_def by simp
qed

lemma init_fields [simp]:
  "next_id (init n) = 1"
  "native (init n) = n"
  "idbProxyTraps (init n) = IteratorSupport (DatabaseExtras BaseTraps)"
  "transformCache (init n) = Map.empty"
  "reverseTransformCache (init n) = Map.empty"
  "transactionDoneMap (init n) = Map.empty"
  "cursorRequestMap (init n) = Map.empty"
  "listeners (init n) = []"
  "promises (init n) = Map.empty"
  "microtasks (init n) = []"
  by (simp_all add: init_def addTraps_def empty_state_def)

text \<open>The state after the first \<^verbatim>\<open>wrap\<close> of a transaction in the initial state.\<close>

lemma init_wrap_tx:
  "cache_inv (snd (wrap (Handle IDBTransaction i) (init n)))"
  "cache_sound (snd (wrap (Handle IDBTransaction i) (init n)))"
  "listeners_fresh (snd (wrap (Handle IDBTransaction i) (init n)))"
  "native (snd (wrap (Handle IDBTransaction i) (init n))) = n"
  "fst (wrap (Handle IDBTransaction i) (init n)) =
     Inr (Proxy 2 (Handle IDBTransaction i) (IdbProxyTraps (IteratorSupport (DatabaseExtras BaseTraps))))"
  "reverseTransformCache (snd (wrap (Handle IDBTransaction i) (init n)))
     (Proxy 2 (Handle IDBTransaction i) (IdbProxyTraps (IteratorSupport (DatabaseExtras BaseTraps)))) =
     Some (Handle IDBTransaction i)"
proof -
  show "cache_inv (snd (wrap (Handle IDBTransaction i) (init n)))"
    by (rule wrap_cache_inv) (rule cache_inv_init)
  show "cache_sound (snd (wrap (Handle IDBTransaction i) (init n)))"
    by (rule wrap_cache_sound) (rule cache_sound_init)
  show "listeners_fresh (snd (wrap (Handle IDBTransaction i) (init n)))"
    by (rule wrap_fresh) (rule listeners_fresh_init)
  show "native (snd (wrap (Handle IDBTransaction i) (init n))) = n"
    by (simp add: wrap_unchanged)
  have w: "wrap (Handle IDBTransaction i) (init n) = wrap (Handle IDBTransaction i) (init n)" ..
  note t = wrap_tx_new[of "init n" i, simplified]
  show "fst (wrap (Handle IDBTransaction i) (init n)) =
     Inr (Proxy 2 (Handle IDBTransaction i) (IdbProxyTraps (IteratorSupport (DatabaseExtras BaseTraps))))"
    by (simp add: t)
  show "reverseTransformCache (snd (wrap (Handle IDBTransaction i) (init n)))
     (Proxy 2 (Handle IDBTransaction i) (IdbProxyTraps (IteratorSupport (DatabaseExtras BaseTraps)))) =
     Some (Handle IDBTransaction i)"
    by (simp add: t)
qed

lemma demo_engine_fields [simp]:
  "native_get demo_engine = demo_get"
  "native_in demo_engine = demo_in"
  "native_apply demo_engine = demo_apply"
  "objectStoreNames demo_engine n (Handle k t) = demo_scope t"
  by (simp_all add: demo_engine_def)

section \<open>The store of a transaction\<close>

text \<open>
  Claim C2, as the code has it. \<^verbatim>\<open>objectStoreNames\<close> of a transaction is sorted and has no
  duplicates. On a wrapped transaction, reading \<^verbatim>\<open>store\<close> returns \<^verbatim>\<open>undefined\<close> when the
  transaction spans two or more stores; when it spans exactly one, it calls
  \<^verbatim>\<open>objectStore\<close> with that name on the raw transaction and returns \<^verbatim>\<open>wrap\<close> of the store
  the engine returns, the wrapped handle of that store.
\<close>

theorem transaction_store_property:
  assumes inv: "cache_inv s" and snd: "cache_sound s"
    and rev: "reverseTransformCache s (Proxy j (Handle IDBTransaction i) (IdbProxyTraps ts)) =
                Some (Handle IDBTransaction i)"
    and sorted: "sorted_wrt (<) (objectStoreNames E (native s) (Handle IDBTransaction i))"
    and fn: "native_get E (native s) (Handle IDBTransaction i) (Name ''objectStore'') =
               Fn ''IDBTransaction.prototype.objectStore''"
    and ap: "native_apply E (Fn ''IDBTransaction.prototype.objectStore'') (Handle IDBTransaction i)
               [Str nm] (native s) = (Inr (Handle IDBObjectStore si), n')"
  shows "(Suc 0 < length (objectStoreNames E (native s) (Handle IDBTransaction i)) \<longrightarrow>
            js_get E (Proxy j (Handle IDBTransaction i) (IdbProxyTraps ts)) (Name ''store'') s =
              (Inr Undefined, s))
       \<and> (objectStoreNames E (native s) (Handle IDBTransaction i) = [nm] \<longrightarrow>
            js_get E (Proxy j (Handle IDBTransaction i) (IdbProxyTraps ts)) (Name ''store'') s =
              wrap (Handle IDBObjectStore si)
                ((snd (wrap (Fn ''IDBTransaction.prototype.objectStore'') s))\<lparr>native := n'\<rparr>)
            \<and> (\<exists>w. fst (js_get E (Proxy j (Handle IDBTransaction i) (IdbProxyTraps ts))
                          (Name ''store'') s) = Inr w
                   \<and> transformCache (snd (js_get E (Proxy j (Handle IDBTransaction i) (IdbProxyTraps ts))
                          (Name ''store'') s)) (Handle IDBObjectStore si) = Some w
                   \<and> unwrap w (snd (js_get E (Proxy j (Handle IDBTransaction i) (IdbProxyTraps ts))
                          (Name ''store'') s)) = Handle IDBObjectStore si))"
proof -
  let ?names = "objectStoreNames E (native s) (Handle IDBTransaction i)"
  let ?tx = "Handle IDBTransaction i"
  let ?W = "Proxy j ?tx (IdbProxyTraps ts)"
  let ?f = "Fn ''IDBTransaction.prototype.objectStore''"
  let ?mid = "(snd (wrap ?f s))\<lparr>native := n'\<rparr>"
  have many: "js_get E ?W (Name ''store'') s = (Inr Undefined, s)" if "Suc 0 < length ?names"
    using sorted_second_nonempty[OF sorted that] that
    unfolding js_get_store by (simp add: item_def)
  have adv: "?f \<notin> set getCursorAdvanceMethods" by (simp add: getCursorAdvanceMethods_def)
  have cm: "call_method E ?W (Name ''objectStore'') [Str nm] s = wrap (Handle IDBObjectStore si) ?mid"
    using call_wrapped_method[OF inv snd rev _ _ _ fn adv, of "[Str nm]"] ap by simp
  have eq: "js_get E ?W (Name ''store'') s = wrap (Handle IDBObjectStore si) ?mid"
    if "?names = [nm]"
    using that cm unfolding js_get_store by (simp add: item_def)
  have im: "cache_inv ?mid" using inv by (simp add: wrap_cache_inv)
  have k: "IDBObjectStore \<in> set getIdbProxyableTypes" by (simp add: getIdbProxyableTypes_def)
  have ex: "\<exists>w. fst (js_get E ?W (Name ''store'') s) = Inr w
          \<and> transformCache (snd (js_get E ?W (Name ''store'') s)) (Handle IDBObjectStore si) = Some w
          \<and> unwrap w (snd (js_get E ?W (Name ''store'') s)) = Handle IDBObjectStore si"
    if "?names = [nm]"
    unfolding eq[OF that] using wrap_handle_unwrap[OF k im, of si] by simp
  from many eq ex show ?thesis by blast
qed


theorem transaction_store_property_witness:
  "cache_inv (snd (wrap (Handle IDBTransaction 1) (init demo_native)))
   \<and> cache_sound (snd (wrap (Handle IDBTransaction 1) (init demo_native)))
   \<and> objectStoreNames demo_engine demo_native (Handle IDBTransaction 1) = [''books'']
   \<and> (\<exists>w. fst (js_get demo_engine
               (Proxy 2 (Handle IDBTransaction 1) (IdbProxyTraps (IteratorSupport (DatabaseExtras BaseTraps))))
               (Name ''store'') (snd (wrap (Handle IDBTransaction 1) (init demo_native)))) = Inr w
         \<and> unwrap w (snd (js_get demo_engine
               (Proxy 2 (Handle IDBTransaction 1) (IdbProxyTraps (IteratorSupport (DatabaseExtras BaseTraps))))
               (Name ''store'') (snd (wrap (Handle IDBTransaction 1) (init demo_native))))) =
             Handle IDBObjectStore 2)
   \<and> objectStoreNames demo_engine demo_native (Handle IDBTransaction 2) = [''authors'', ''books'']
   \<and> js_get demo_engine
         (Proxy 2 (Handle IDBTransaction 2) (IdbProxyTraps (IteratorSupport (DatabaseExtras BaseTraps))))
         (Name ''store'') (snd (wrap (Handle IDBTransaction 2) (init demo_native))) =
       (Inr Undefined, snd (wrap (Handle IDBTransaction 2) (init demo_native)))"
proof -
  let ?s2 = "snd (wrap (Handle IDBTransaction 2) (init demo_native))"
  have names2: "objectStoreNames demo_engine demo_native (Handle IDBTransaction 2) =
      [''authors'', ''books'']"
    by (simp add: demo_scope_def)
  have sorted2: "sorted_wrt (<) (objectStoreNames demo_engine (native ?s2) (Handle IDBTransaction 2))"
    by (simp add: wrap_unchanged demo_scope_def less_char_def)
  have fn2: "native_get demo_engine (native ?s2) (Handle IDBTransaction 2) (Name ''objectStore'') =
      Fn ''IDBTransaction.prototype.objectStore''"
    by (simp add: demo_methods_def demo_class_def)
  have ap2: "native_apply demo_engine (Fn ''IDBTransaction.prototype.objectStore'')
      (Handle IDBTransaction 2) [Str ''books''] (native ?s2) =
      (Inr (Handle IDBObjectStore 2), demo_native)"
    by (simp add: wrap_unchanged demo_apply_def demo_scope_def)
  have many: "js_get demo_engine
         (Proxy 2 (Handle IDBTransaction 2) (IdbProxyTraps (IteratorSupport (DatabaseExtras BaseTraps))))
         (Name ''store'') ?s2 = (Inr Undefined, ?s2)"
    using transaction_store_property[OF init_wrap_tx(1) init_wrap_tx(2) init_wrap_tx(6)
        sorted2 fn2 ap2]
    by (simp add: wrap_unchanged demo_scope_def del: js_get.simps)
  let ?s = "snd (wrap (Handle IDBTransaction 1) (init demo_native))"
  let ?f = "Fn ''IDBTransaction.prototype.objectStore''"
  have nat: "native ?s = demo_native" by (rule init_wrap_tx)
  have names: "objectStoreNames demo_engine demo_native (Handle IDBTransaction 1) = [''books'']"
    by (simp add: demo_scope_def)
  have sorted: "sorted_wrt (<) (objectStoreNames demo_engine (native ?s) (Handle IDBTransaction 1))"
    by (simp add: wrap_unchanged demo_scope_def)
  have fn: "native_get demo_engine (native ?s) (Handle IDBTransaction 1) (Name ''objectStore'') = ?f"
    by (simp add: demo_methods_def demo_class_def)
  have ap: "native_apply demo_engine ?f (Handle IDBTransaction 1) [Str ''books''] (native ?s) =
      (Inr (Handle IDBObjectStore 2), demo_native)"
    by (simp add: wrap_unchanged demo_apply_def demo_scope_def)
  from transaction_store_property[OF init_wrap_tx(1) init_wrap_tx(2) init_wrap_tx(6) sorted fn ap]
    names nat init_wrap_tx(1)[of 1 demo_native] init_wrap_tx(2)[of 1 demo_native]
  have one: "\<exists>w. fst (js_get demo_engine
               (Proxy 2 (Handle IDBTransaction 1) (IdbProxyTraps (IteratorSupport (DatabaseExtras BaseTraps))))
               (Name ''store'') ?s) = Inr w
         \<and> unwrap w (snd (js_get demo_engine
               (Proxy 2 (Handle IDBTransaction 1) (IdbProxyTraps (IteratorSupport (DatabaseExtras BaseTraps))))
               (Name ''store'') ?s)) = Handle IDBObjectStore 2"
    by auto
  from one names names2 many init_wrap_tx(1)[of 1 demo_native] init_wrap_tx(2)[of 1 demo_native]
  show ?thesis by blast
qed

text \<open>
  Claim C2 as stated fails for a transaction that spans no store, such as the upgrade
  transaction of a new database, which \<^verbatim>\<open>openDB\<close> wraps and hands to \<^verbatim>\<open>upgrade\<close>. Neither
  name exists, so \<^verbatim>\<open>objectStoreNames[1]\<close> is falsy and the code calls
  \<^verbatim>\<open>receiver.objectStore(undefined)\<close>, which the engine refuses.
\<close>

theorem transaction_store_zero_stores_throws:
  "objectStoreNames demo_engine demo_native (Handle IDBTransaction 0) = []
   \<and> fst (wrap (Handle IDBTransaction 0) (init demo_native)) =
       Inr (Proxy 2 (Handle IDBTransaction 0) (IdbProxyTraps (IteratorSupport (DatabaseExtras BaseTraps))))
   \<and> fst (js_get demo_engine
            (Proxy 2 (Handle IDBTransaction 0) (IdbProxyTraps (IteratorSupport (DatabaseExtras BaseTraps))))
            (Name ''store'') (snd (wrap (Handle IDBTransaction 0) (init demo_native)))) =
       Inl (Thrown (Str ''NotFoundError''))"
proof -
  let ?s = "snd (wrap (Handle IDBTransaction 0) (init demo_native))"
  let ?W = "Proxy 2 (Handle IDBTransaction 0) (IdbProxyTraps (IteratorSupport (DatabaseExtras BaseTraps)))"
  let ?f = "Fn ''IDBTransaction.prototype.objectStore''"
  have nat: "native ?s = demo_native" by (rule init_wrap_tx)
  have names: "objectStoreNames demo_engine demo_native (Handle IDBTransaction 0) = []"
    by (simp add: demo_scope_def)
  have fn: "native_get demo_engine (native ?s) (Handle IDBTransaction 0) (Name ''objectStore'') = ?f"
    by (simp add: demo_methods_def demo_class_def)
  have adv: "?f \<notin> set getCursorAdvanceMethods" by (simp add: getCursorAdvanceMethods_def)
  have ap: "native_apply demo_engine ?f (Handle IDBTransaction 0) [Undefined] (native ?s) =
      (Inl (Str ''NotFoundError''), demo_native)"
    by (simp add: wrap_unchanged demo_apply_def demo_scope_def)
  have cm: "fst (call_method demo_engine ?W (Name ''objectStore'') [Undefined] ?s) =
      Inl (Thrown (Str ''NotFoundError''))"
    using call_wrapped_method[OF init_wrap_tx(1) init_wrap_tx(2) init_wrap_tx(6) _ _ _ fn adv,
        of "[Undefined]"] ap
    by simp
  have "fst (js_get demo_engine ?W (Name ''store'') ?s) = Inl (Thrown (Str ''NotFoundError''))"
    unfolding js_get_store using cm by (simp add: wrap_unchanged demo_scope_def item_def)
  with names init_wrap_tx(5)[of 0 demo_native] show ?thesis by simp
qed

section \<open>Advancing a wrapped cursor\<close>









section \<open>Index-scoped reads\<close>

text \<open>An index-scoped read with a truthy index name is what the specification says.\<close>

lemma index_read_refines:
  assumes "truthy indexName"
  shows "read_method E (base @ ''FromIndex'') db (storeName # indexName # rest) s =
         index_read_spec E base db storeName indexName rest s"
  using assms
  by (simp add: read_method_def index_read_spec_def endsWith_def slice_end_def Let_def
      split: prod.splits sum.splits)

lemma demo_db_state_eq:
  "demo_db_state =
     (init demo_native)\<lparr>next_id := 2,
        transformCache := [Handle IDBDatabase 0 \<mapsto> demo_db],
        reverseTransformCache := [demo_db \<mapsto> Handle IDBDatabase 0]\<rparr>"
proof -
  have k: "IDBDatabase \<in> set getIdbProxyableTypes" by (simp add: getIdbProxyableTypes_def)
  show ?thesis
    unfolding demo_db_state_def demo_db_def
    by (simp add: wrap_handle[OF k] Let_def init_def addTraps_def empty_state_def)
qed

lemma demo_get_method:
  "js_get demo_engine demo_db (Name ''getFromIndex'') demo_db_state =
     (Inr (Func 2 (ReadMethod ''getFromIndex'')),
      demo_db_state\<lparr>next_id := 3,
         cachedMethods := [''getFromIndex'' \<mapsto> Func 2 (ReadMethod ''getFromIndex'')]\<rparr>)"
  by (simp add: demo_db_def demo_db_state_eq isIteratorProp_def instanceOfAny_def
      potentialDatabaseExtra_def demo_methods_def map_get_def getMethod_def readMethods_def
      init_def addTraps_def empty_state_def)


lemmas demo_eval =
  demo_db_def isIteratorProp_def instanceOfAny_def potentialDatabaseExtra_def demo_methods_def
  demo_class_def map_get_def getMethod_def readMethods_def writeMethods_def
  init_def addTraps_def empty_state_def
  call_method_def wrap_def weak_has_def weak_get_def weak_set_def strict_neq_def
  transformCachableValue_def wrapFunction_def getCursorAdvanceMethods_def getIdbProxyableTypes_def
  cacheDonePromiseForTransaction_def promisifyRequest_def addEventListener_def promise_then_def
  unwrap_def apply_raw_def demo_apply_def demo_scope_def item_def Let_def
  endsWith_def slice_end_def

lemma demo_read_code:
  "fst (call demo_engine (Func 2 (ReadMethod ''getFromIndex'')) demo_db
          [Str ''books'', Str [], Num 1] demo_read_state) = Inr (Promise 9)
   \<and> unwrap (Promise 9)
        (snd (call demo_engine (Func 2 (ReadMethod ''getFromIndex'')) demo_db
          [Str ''books'', Str [], Num 1] demo_read_state)) = Handle IDBRequest 10"
  unfolding demo_read_state_def demo_get_method
  by (simp add: read_method_def demo_db_state_eq demo_eval)


lemma demo_read_spec:
  "fst (index_read_spec demo_engine ''get'' demo_db (Str ''books'') (Str []) [Num 1]
          demo_read_state) = Inr (Promise 11)
   \<and> unwrap (Promise 11)
        (snd (index_read_spec demo_engine ''get'' demo_db (Str ''books'') (Str []) [Num 1]
          demo_read_state)) = Handle IDBRequest 20"
  unfolding demo_read_state_def demo_get_method
  by (simp add: index_read_spec_def demo_db_state_eq demo_eval)

text \<open>
  Claim C5 at an index named by the empty string, a name IndexedDB allows. On the small
  engine, \<^verbatim>\<open>getFromIndex('books', '', 1)\<close> on the wrapped database returns a promise for
  request 10, the request of \<^verbatim>\<open>get\<close> on the object store: \<^verbatim>\<open>if (indexName)\<close> is false for
  the empty name and the index is never opened. What the specification describes returns
  a promise for request 20, the request of \<^verbatim>\<open>get\<close> on the index. For a truthy index name
  the two agree (\<open>index_read_refines\<close>).
\<close>

theorem index_read_with_empty_index_name:
  "fst (wrap (Handle IDBDatabase 0) (init demo_native)) = Inr demo_db
   \<and> fst (js_get demo_engine demo_db (Name ''getFromIndex'') demo_db_state) =
       Inr (Func 2 (ReadMethod ''getFromIndex''))
   \<and> native_apply demo_engine (Fn ''IDBObjectStore.prototype.index'') (Handle IDBObjectStore 2)
         [Str []] demo_native = (Inr (Handle IDBIndex 3), demo_native)
   \<and> fst (call demo_engine (Func 2 (ReadMethod ''getFromIndex'')) demo_db
          [Str ''books'', Str [], Num 1] demo_read_state) = Inr (Promise 9)
   \<and> unwrap (Promise 9)
        (snd (call demo_engine (Func 2 (ReadMethod ''getFromIndex'')) demo_db
          [Str ''books'', Str [], Num 1] demo_read_state)) = Handle IDBRequest 10
   \<and> fst (index_read_spec demo_engine ''get'' demo_db (Str ''books'') (Str []) [Num 1]
          demo_read_state) = Inr (Promise 11)
   \<and> unwrap (Promise 11)
        (snd (index_read_spec demo_engine ''get'' demo_db (Str ''books'') (Str []) [Num 1]
          demo_read_state)) = Handle IDBRequest 20"
proof -
  have k: "IDBDatabase \<in> set getIdbProxyableTypes" by (simp add: getIdbProxyableTypes_def)
  have w: "fst (wrap (Handle IDBDatabase 0) (init demo_native)) = Inr demo_db"
    by (simp add: wrap_handle[OF k] Let_def demo_db_def)
  have i: "native_apply demo_engine (Fn ''IDBObjectStore.prototype.index'') (Handle IDBObjectStore 2)
         [Str []] demo_native = (Inr (Handle IDBIndex 3), demo_native)"
    by (simp add: demo_apply_def)
  from w i demo_get_method demo_read_code demo_read_spec show ?thesis by simp
qed

section \<open>Convenience writes\<close>

lemma extends_native: "extends s (s\<lparr>native := n\<rparr>)"
  by (simp add: extends_def)

lemma listeners_fresh_native [simp]: "listeners_fresh (s\<lparr>native := n\<rparr>) = listeners_fresh s"
  by (simp add: listeners_fresh_def)

lemma wrap_native_extends: "extends s ((snd (wrap v s))\<lparr>native := n\<rparr>)"
  using wrap_extends extends_native by (rule extends_trans)

lemma wrap_handle_proxy:
  assumes k: "k \<in> set getIdbProxyableTypes" and inv: "cache_inv s" and snd: "cache_sound s"
  shows "\<exists>j ts. fst (wrap (Handle k i) s) = Inr (Proxy j (Handle k i) (IdbProxyTraps ts))
           \<and> reverseTransformCache (snd (wrap (Handle k i) s))
                (Proxy j (Handle k i) (IdbProxyTraps ts)) = Some (Handle k i)"
proof -
  from wrap_handle_unwrap[OF k inv, of i] obtain w where
    f: "fst (wrap (Handle k i) s) = Inr w"
    and t: "transformCache (snd (wrap (Handle k i) s)) (Handle k i) = Some w"
    and u: "unwrap w (snd (wrap (Handle k i) s)) = Handle k i" by blast
  have "cache_sound (snd (wrap (Handle k i) s))" using snd by (rule wrap_cache_sound)
  with t have "is_wrapper_of (Handle k i) w" by (simp add: cache_sound_def)
  then obtain j ts where w: "w = Proxy j (Handle k i) (IdbProxyTraps ts)"
    by (cases "(Handle k i, w)" rule: is_wrapper_of.cases) auto
  from u have "reverseTransformCache (snd (wrap (Handle k i) s)) w = Some (Handle k i)"
    by (auto simp add: unwrap_def weak_get_def split: if_splits option.splits)
  with f w show ?thesis by blast
qed

text \<open>A dispatch none of whose listeners belongs to a promise leaves the promise as it is.\<close>

lemma run_listeners_other:
  assumes "\<forall>l \<in> set ls. cb_promise (snd (snd l)) \<noteq> p" and "p < next_id s"
  shows "promises (snd (run_listeners E ls s)) p = promises s p"
  using assms
proof (induction ls arbitrary: s)
  case Nil
  then show ?case by simp
next
  case (Cons l ls)
  show ?case
  proof (cases "l \<in> set (listeners s)")
    case True
    let ?s1 = "run_microtasks (snd (run_callback E (snd (snd l)) s))"
    have a: "promises ?s1 p = promises s p"
      using run_callback_promise_other[of p "snd (snd l)" s E] Cons.prems by simp
    have b: "p < next_id ?s1"
      using run_callback_next_id[of s E "snd (snd l)"] Cons.prems(2) by simp
    from Cons.prems(1) have "\<forall>l \<in> set ls. cb_promise (snd (snd l)) \<noteq> p" by simp
    from Cons.IH[OF this b] a True show ?thesis by (simp add: split_beta)
  next
    case False
    with Cons show ?thesis by simp
  qed
qed

lemma not_iterator_db [simp]: "\<not> isIteratorProp (Handle IDBDatabase i) prop"
  by (simp add: isIteratorProp_def instanceOfAny_def)

lemma not_extra_store [simp]:
  "potentialDatabaseExtra (Handle IDBObjectStore i) prop x = Inr False"
  by (simp add: potentialDatabaseExtra_def)

lemma write_not_iterate:
  "prop \<in> set writeMethods \<Longrightarrow> \<not> isIteratorProp (Handle IDBObjectStore i) (Name prop)"
  by (auto simp add: writeMethods_def isIteratorProp_def)

lemma store_method_not_advance:
  "Fn (''IDBObjectStore.prototype.'' @ prop) \<notin> set getCursorAdvanceMethods"
  by (simp add: getCursorAdvanceMethods_def)

lemma demo_put_method:
  "js_get demo_engine demo_db (Name ''put'') demo_db_state =
     (Inr (Func 2 (WriteMethod ''put'')),
      demo_db_state\<lparr>next_id := 3,
         cachedMethods := [''put'' \<mapsto> Func 2 (WriteMethod ''put'')]\<rparr>)"
  by (simp add: demo_db_def demo_db_state_eq isIteratorProp_def instanceOfAny_def
      potentialDatabaseExtra_def demo_methods_def map_get_def getMethod_def readMethods_def
      writeMethods_def init_def addTraps_def empty_state_def)

lemma demo_write_state_eq:
  "demo_write_state =
     (init demo_native)\<lparr>next_id := 3,
        transformCache := [Handle IDBDatabase 0 \<mapsto> demo_db],
        reverseTransformCache := [demo_db \<mapsto> Handle IDBDatabase 0],
        cachedMethods := [''put'' \<mapsto> Func 2 (WriteMethod ''put'')]\<rparr>"
  unfolding demo_write_state_def demo_put_method by (simp add: demo_db_state_eq)

text \<open>
  Claim C4. For a write method \<^verbatim>\<open>put\<close>, \<^verbatim>\<open>add\<close>, \<^verbatim>\<open>delete\<close> or \<^verbatim>\<open>clear\<close> called on a
  wrapped database with a store name, where the engine opens a new transaction over exactly
  that store and the three raw calls return: the call runs \<^verbatim>\<open>transaction(storeName,
  'readwrite')\<close>, \<^verbatim>\<open>objectStore\<close> of the sole store and the raw write method with the remaining
  arguments, in this order, before it returns (the engine state at return is the one the
  write left). What it returns is the promise kept in \<^verbatim>\<open>transactionDoneMap\<close> for the
  transaction, pending at return and different from the promise made for the request of the
  write. No event other than \<^verbatim>\<open>complete\<close>, \<^verbatim>\<open>error\<close> or \<^verbatim>\<open>abort\<close> on the transaction settles
  it, in particular not the success of the write's request; \<^verbatim>\<open>complete\<close> on the
  transaction fulfils it.
\<close>

theorem write_returns_transaction_done:
  fixes s :: "'n state"
  assumes inv: "cache_inv s" and snd: "cache_sound s" and fresh: "listeners_fresh s"
    and rev: "reverseTransformCache s (Proxy j (Handle IDBDatabase di) (IdbProxyTraps ts)) =
                Some (Handle IDBDatabase di)"
    and wm: "prop \<in> set writeMethods"
    and has_tx: "native_in E (native s) (Handle IDBDatabase di) (Name ''transaction'')"
    and fn_tx: "native_get E (native s) (Handle IDBDatabase di) (Name ''transaction'') =
                  Fn ''IDBDatabase.prototype.transaction''"
    and ap_tx: "native_apply E (Fn ''IDBDatabase.prototype.transaction'') (Handle IDBDatabase di)
                  [storeName, Str ''readwrite''] (native s) = (Inr (Handle IDBTransaction ti), n1)"
    and new_tx: "transformCache s (Handle IDBTransaction ti) = None"
                "transactionDoneMap s (Handle IDBTransaction ti) = None"
    and names: "objectStoreNames E n1 (Handle IDBTransaction ti) = [nm]"
    and fn_os: "native_get E n1 (Handle IDBTransaction ti) (Name ''objectStore'') =
                  Fn ''IDBTransaction.prototype.objectStore''"
    and ap_os: "native_apply E (Fn ''IDBTransaction.prototype.objectStore'') (Handle IDBTransaction ti)
                  [Str nm] n1 = (Inr (Handle IDBObjectStore si), n2)"
    and fn_w: "native_get E n2 (Handle IDBObjectStore si) (Name prop) =
                 Fn (''IDBObjectStore.prototype.'' @ prop)"
    and ap_w: "native_apply E (Fn (''IDBObjectStore.prototype.'' @ prop)) (Handle IDBObjectStore si)
                 args n2 = (Inr (Handle IDBRequest ri), n3)"
  shows "(let r = call E (Func k (WriteMethod prop))
                    (Proxy j (Handle IDBDatabase di) (IdbProxyTraps ts)) (storeName # args) s;
              s' = snd r
          in fst r = Inr (weak_get (transactionDoneMap s') (Handle IDBTransaction ti))
             \<and> native s' = n3
             \<and> (\<exists>pd. fst r = Inr (Promise pd) \<and> next_id s \<le> pd
                   \<and> promises s' pd = Some (Pending, [])
                   \<and> (\<exists>pw. pw \<noteq> pd \<and> unwrap (Promise pw) s' = Handle IDBRequest ri
                         \<and> promises s' pw = Some (Pending, [CacheCursorRequest (Handle IDBRequest ri)]))
                   \<and> (\<forall>t ty n''. \<not> (t = Handle IDBTransaction ti \<and> ty \<in> {''complete'', ''error'', ''abort''}) \<longrightarrow>
                         promises (snd (dispatchEvent E t ty (s'\<lparr>native := n''\<rparr>))) pd = Some (Pending, []))
                   \<and> (\<forall>n''. promises (snd (dispatchEvent E (Handle IDBTransaction ti) ''complete''
                                (s'\<lparr>native := n''\<rparr>))) pd = Some (Fulfilled Undefined, []))))"
proof -
  let ?db = "Handle IDBDatabase di"
  let ?D = "Proxy j ?db (IdbProxyTraps ts)"
  let ?tx = "Handle IDBTransaction ti"
  let ?st = "Handle IDBObjectStore si"
  let ?req = "Handle IDBRequest ri"
  let ?f1 = "Fn ''IDBDatabase.prototype.transaction''"
  let ?f2 = "Fn ''IDBTransaction.prototype.objectStore''"
  let ?f3 = "Fn (''IDBObjectStore.prototype.'' @ prop)"
  \<comment> \<open>\<^verbatim>\<open>this.transaction(storeName, 'readwrite')\<close>\<close>
  let ?m1 = "(snd (wrap ?f1 s))\<lparr>native := n1\<rparr>"
  have adv1: "?f1 \<notin> set getCursorAdvanceMethods" by (simp add: getCursorAdvanceMethods_def)
  have ndb1: "potentialDatabaseExtra ?db (Name ''transaction'')
      (js_has E (native s) ?db (Name ''transaction'')) = Inr False"
    using has_tx by (simp add: potentialDatabaseExtra_def)
  have c1: "call_method E ?D (Name ''transaction'') [storeName, Str ''readwrite''] s = wrap ?tx ?m1"
    using call_wrapped_method[OF inv snd rev _ ndb1 _ fn_tx adv1, of "[storeName, Str ''readwrite'']"]
      ap_tx by simp
  have e1: "extends s ?m1" by (rule wrap_native_extends)
  have i1: "cache_inv ?m1" "cache_sound ?m1" "listeners_fresh ?m1"
    using inv snd fresh by (simp_all add: wrap_cache_inv wrap_cache_sound wrap_fresh)
  have new1: "transformCache ?m1 ?tx = None" "transactionDoneMap ?m1 ?tx = None"
    using new_tx by (simp_all add: wrap_fn)
  let ?pd = "next_id ?m1"
  let ?T = "Proxy (Suc ?pd) ?tx (IdbProxyTraps (idbProxyTraps ?m1))"
  let ?sb = "snd (wrap ?tx ?m1)"
  note wt = wrap_tx_new[OF new1]
  have ft: "fst (wrap ?tx ?m1) = Inr ?T" by (simp add: wt)
  have le_pd: "next_id s \<le> ?pd" using extendsD(1)[OF e1] .
  have ib: "cache_inv ?sb" "cache_sound ?sb" "listeners_fresh ?sb"
    using i1 by (simp_all add: wrap_cache_inv wrap_cache_sound wrap_fresh)
  have revT: "reverseTransformCache ?sb ?T = Some ?tx" by (simp add: wt)
  have natb: "native ?sb = n1" by (simp add: wrap_unchanged)
  have doneb: "transactionDoneMap ?sb ?tx = Some (Promise ?pd)" by (simp add: wt)
  have pendb: "promises ?sb ?pd = Some (Pending, [])" by (simp add: wt)
  have nxb: "?pd < next_id ?sb" by (simp add: wt)
  have lsb: "set (listeners ?sb) = set (listeners ?m1) \<union>
      {(?tx, ''complete'', TxComplete ?pd ?tx), (?tx, ''error'', TxError ?pd ?tx),
       (?tx, ''abort'', TxError ?pd ?tx)}"
    by (auto simp add: wt)
  \<comment> \<open>\<^verbatim>\<open>tx.store\<close>\<close>
  let ?m2 = "(snd (wrap ?f2 ?sb))\<lparr>native := n2\<rparr>"
  have adv2: "?f2 \<notin> set getCursorAdvanceMethods" by (simp add: getCursorAdvanceMethods_def)
  have c2: "call_method E ?T (Name ''objectStore'') [Str nm] ?sb = wrap ?st ?m2"
    using call_wrapped_method[OF ib(1) ib(2) revT _ _ _ _ adv2, of "''objectStore''" E "[Str nm]"]
      fn_os ap_os natb by simp
  have g2: "js_get E ?T (Name ''store'') ?sb = wrap ?st ?m2"
    unfolding js_get_store using c2 names natb by (simp add: item_def)
  have i2: "cache_inv ?m2" "cache_sound ?m2"
    using ib by (simp_all add: wrap_cache_inv wrap_cache_sound)
  have kst: "IDBObjectStore \<in> set getIdbProxyableTypes" by (simp add: getIdbProxyableTypes_def)
  let ?sc = "snd (wrap ?st ?m2)"
  from wrap_handle_proxy[OF kst i2, of si] obtain js tss where
    fS: "fst (wrap ?st ?m2) = Inr (Proxy js ?st (IdbProxyTraps tss))"
    and revS: "reverseTransformCache ?sc (Proxy js ?st (IdbProxyTraps tss)) = Some ?st"
    by blast
  let ?S = "Proxy js ?st (IdbProxyTraps tss)"
  have ic: "cache_inv ?sc" "cache_sound ?sc"
    using i2 by (simp_all add: wrap_cache_inv wrap_cache_sound)
  have natc: "native ?sc = n2" by (simp add: wrap_unchanged)
  have ebc: "extends ?sb ?sc"
    using wrap_native_extends[where s = ?sb and v = ?f2 and n = n2] wrap_extends[of ?m2 ?st] by (rule extends_trans)
  \<comment> \<open>\<^verbatim>\<open>tx.store[prop](...args)\<close>\<close>
  let ?m3 = "(snd (wrap ?f3 ?sc))\<lparr>native := n3\<rparr>"
  note wni = write_not_iterate[OF wm, of si]
  have c3: "call_method E ?S (Name prop) args ?sc = wrap ?req ?m3"
    using call_wrapped_method[OF ic revS wni _ _ _ store_method_not_advance, of E _ args]
      fn_w ap_w natc by simp
  let ?pw = "next_id ?m3"
  let ?sd = "snd (wrap ?req ?m3)"
  have wr: "wrap ?req ?m3 = promisifyRequest ?req ?m3" by (simp add: wrap_def)
  have fr: "fst (wrap ?req ?m3) = Inr (Promise ?pw)" unfolding wr promisifyRequest_raw by simp
  have ecd: "extends ?sc ?sd"
    using wrap_native_extends[where s = ?sc and v = ?f3 and n = n3] wrap_extends[of ?m3 ?req] by (rule extends_trans)
  have ebd: "extends ?sb ?sd" using ebc ecd by (rule extends_trans)
  have natd: "native ?sd = n3" by (simp add: wrap_unchanged)
  have pwd: "promises ?sd ?pw = Some (Pending, [CacheCursorRequest ?req])"
    unfolding wr promisifyRequest_raw by simp
  have unw: "unwrap (Promise ?pw) ?sd = ?req"
    unfolding wr promisifyRequest_raw by (simp add: unwrap_def weak_get_def)
  have le_pw: "next_id ?sb \<le> ?pw"
    using extendsD(1)[OF ebc] extendsD(1)[OF wrap_native_extends[where s = ?sc and v = ?f3 and n = n3]] by simp
  have ne: "?pw \<noteq> ?pd" using le_pw nxb by simp
  \<comment> \<open>\<^verbatim>\<open>tx.done\<close>\<close>
  have doned: "transactionDoneMap ?sd ?tx = Some (Promise ?pd)" using extendsD(4)[OF ebd doneb] .
  have g4: "js_get E ?T (Name ''done'') ?sd = (Inr (Promise ?pd), ?sd)"
    using doned by (simp add: traps_get_done weak_get_def)
  have res: "write_method E prop ?D (storeName # args) s = (Inr (Promise ?pd), ?sd)"
  proof -
    have pairI: "p = (a, snd p)" if "fst p = a" for p :: "'x \<times> 'y" and a
      using that by (cases p) simp
    have c1': "call_method E ?D (Name ''transaction'') [storeName, Str ''readwrite''] s = (Inr ?T, ?sb)"
      unfolding c1 using ft by (rule pairI)
    have g2': "js_get E ?T (Name ''store'') ?sb = (Inr ?S, ?sc)"
      unfolding g2 using fS by (rule pairI)
    have c3': "call_method E ?S (Name prop) args ?sc = (Inr (Promise ?pw), ?sd)"
      unfolding c3 using fr by (rule pairI)
    have fa: "first_arg (storeName # args) = storeName" by simp
    have dr: "drop 1 (storeName # args) = args" by simp
    show ?thesis
      unfolding write_method_def Let_def fa dr c1' prod.case sum.case g2' c3' g4 ..
  qed
  have pendd: "promises ?sd ?pd = Some (Pending, [])"
    using extendsD(2)[OF ebd nxb] pendb by simp
  have nxd: "?pd < next_id ?sd" using nxb extendsD(1)[OF ebd] by simp
  have only: "\<forall>l \<in> set (listeners ?sd). cb_promise (snd (snd l)) = ?pd \<longrightarrow>
      l \<in> entries (TxComplete ?pd ?tx)"
  proof (intro ballI impI)
    fix l assume l: "l \<in> set (listeners ?sd)" and p: "cb_promise (snd (snd l)) = ?pd"
    from extendsD(6)[OF ebd l] p nxb have "l \<in> set (listeners ?sb)" by auto
    with lsb i1(3) p show "l \<in> entries (TxComplete ?pd ?tx)"
      by (auto simp add: listeners_fresh_def)
  qed
  have regd: "(?tx, ''complete'', TxComplete ?pd ?tx) \<in> set (listeners ?sd)"
    using extendsD(5)[OF ebd] lsb by blast
  have succ: "promises (snd (dispatchEvent E t ty (?sd\<lparr>native := n''\<rparr>))) ?pd =
      Some (Pending, [])" if nt: "\<not> (t = ?tx \<and> ty \<in> {''complete'', ''error'', ''abort''})" for t ty n''
  proof -
    let ?sn = "?sd\<lparr>native := n''\<rparr>"
    have "\<forall>l \<in> set (filter (\<lambda>l. fst l = t \<and> fst (snd l) = ty) (listeners ?sn)).
        cb_promise (snd (snd l)) \<noteq> ?pd"
    proof (intro ballI notI)
      fix l assume l: "l \<in> set (filter (\<lambda>l. fst l = t \<and> fst (snd l) = ty) (listeners ?sn))"
        and p: "cb_promise (snd (snd l)) = ?pd"
      from l have "l \<in> set (listeners ?sd)" and tt: "fst l = t" "fst (snd l) = ty" by simp_all
      with only p have "l \<in> entries (TxComplete ?pd ?tx)" by blast
      then have "fst l = ?tx \<and> fst (snd l) \<in> {''complete'', ''error'', ''abort''}"
        unfolding entries.simps by fastforce
      with tt nt show False by blast
    qed
    from run_listeners_other[OF this, of ?sn E] nxd pendd show ?thesis
      by (simp add: dispatchEvent_def)
  qed
  have comp: "promises (snd (dispatchEvent E ?tx ''complete'' (?sd\<lparr>native := n''\<rparr>))) ?pd =
      Some (Fulfilled Undefined, [])" for n''
  proof -
    let ?sn = "?sd\<lparr>native := n''\<rparr>"
    have a: "(?tx, ''complete'', TxComplete ?pd ?tx) \<in> set (listeners ?sn)" using regd by simp
    have b: "?pd < next_id ?sn" using nxd by simp
    have c: "promises ?sn ?pd = Some (Pending, [])" using pendd by simp
    have d: "\<forall>l' \<in> set (listeners ?sn). cb_promise (snd (snd l')) = ?pd \<longrightarrow>
        l' \<in> entries (TxComplete ?pd ?tx)" using only by simp
    have e: "native ?sn = n''" by simp
    from tx_done_dispatch[OF a _ b c d e, of E] show ?thesis by simp
  qed
  have dmap: "weak_get (transactionDoneMap ?sd) ?tx = Promise ?pd"
    using doned by (simp add: weak_get_def)
  have inner: "\<exists>pw. pw \<noteq> ?pd \<and> unwrap (Promise pw) ?sd = ?req
      \<and> promises ?sd pw = Some (Pending, [CacheCursorRequest ?req])"
    by (rule exI[of _ ?pw]) (intro conjI ne unw pwd)
  show ?thesis
    unfolding Let_def call.simps res fst_conv snd_conv
  proof (intro conjI)
    show "Inr (Promise ?pd) = Inr (weak_get (transactionDoneMap ?sd) ?tx)"
      unfolding dmap ..
    show "native ?sd = n3" by (rule natd)
    show "\<exists>pd. Inr (Promise ?pd) = Inr (Promise pd) \<and> next_id s \<le> pd
        \<and> promises ?sd pd = Some (Pending, [])
        \<and> (\<exists>pw. pw \<noteq> pd \<and> unwrap (Promise pw) ?sd = ?req
              \<and> promises ?sd pw = Some (Pending, [CacheCursorRequest ?req]))
        \<and> (\<forall>t ty n''. \<not> (t = ?tx \<and> ty \<in> {''complete'', ''error'', ''abort''}) \<longrightarrow>
              promises (snd (dispatchEvent E t ty (?sd\<lparr>native := n''\<rparr>))) pd = Some (Pending, []))
        \<and> (\<forall>n''. promises (snd (dispatchEvent E ?tx ''complete'' (?sd\<lparr>native := n''\<rparr>))) pd =
              Some (Fulfilled Undefined, []))"
      by (rule exI[of _ ?pd]) (intro conjI allI impI refl le_pd pendd inner succ comp; assumption?)
  qed
qed

theorem write_returns_transaction_done_witness:
  "fst (js_get demo_engine demo_db (Name ''put'') demo_db_state) = Inr (Func 2 (WriteMethod ''put''))
   \<and> fst (call demo_engine (Func 2 (WriteMethod ''put'')) demo_db [Str ''books'', Str ''v'']
          demo_write_state) = Inr (Promise 4)
   \<and> promises (snd (call demo_engine (Func 2 (WriteMethod ''put'')) demo_db
          [Str ''books'', Str ''v''] demo_write_state)) 4 = Some (Pending, [])
   \<and> promises (snd (dispatchEvent demo_engine (Handle IDBRequest 11) ''success''
         ((snd (call demo_engine (Func 2 (WriteMethod ''put'')) demo_db
             [Str ''books'', Str ''v''] demo_write_state))
            \<lparr>native := demo_native(11 := Str ''k'')\<rparr>))) 4 = Some (Pending, [])
   \<and> promises (snd (dispatchEvent demo_engine (Handle IDBTransaction 1) ''complete''
         ((snd (call demo_engine (Func 2 (WriteMethod ''put'')) demo_db
             [Str ''books'', Str ''v''] demo_write_state))
            \<lparr>native := demo_native(11 := Str ''k'')\<rparr>))) 4 = Some (Fulfilled Undefined, [])"
proof -
  let ?s = "demo_write_state"
  let ?ts = "IteratorSupport (DatabaseExtras BaseTraps)"
  let ?D = "Proxy 1 (Handle IDBDatabase 0) (IdbProxyTraps ?ts)"
  let ?f1 = "Fn ''IDBDatabase.prototype.transaction''"
  have D: "demo_db = ?D" by (simp add: demo_db_def)
  have h1: "cache_inv ?s"
    by (auto simp add: cache_inv_def demo_write_state_eq demo_db_def init_def addTraps_def
        empty_state_def split: if_splits)
  have h2: "cache_sound ?s"
    by (auto simp add: cache_sound_def demo_write_state_eq demo_db_def init_def addTraps_def
        empty_state_def split: if_splits)
  have h3: "listeners_fresh ?s"
    by (simp add: listeners_fresh_def demo_write_state_eq init_def addTraps_def empty_state_def)
  have h4: "reverseTransformCache ?s ?D = Some (Handle IDBDatabase 0)"
    by (simp add: demo_write_state_eq demo_db_def)
  have h5: "''put'' \<in> set writeMethods" by (simp add: writeMethods_def)
  have nat: "native ?s = demo_native"
    by (simp add: demo_write_state_eq init_def addTraps_def empty_state_def)
  have h6: "native_in demo_engine (native ?s) (Handle IDBDatabase 0) (Name ''transaction'')"
    by (simp add: demo_methods_def)
  have h7: "native_get demo_engine (native ?s) (Handle IDBDatabase 0) (Name ''transaction'') = ?f1"
    by (simp add: demo_methods_def demo_class_def)
  have h8: "native_apply demo_engine ?f1 (Handle IDBDatabase 0) [Str ''books'', Str ''readwrite'']
      (native ?s) = (Inr (Handle IDBTransaction 1), demo_native)"
    unfolding nat by (simp add: demo_apply_def)
  have h9: "transformCache ?s (Handle IDBTransaction 1) = None"
    "transactionDoneMap ?s (Handle IDBTransaction 1) = None"
    by (simp_all add: demo_write_state_eq init_def addTraps_def empty_state_def)
  have h10: "objectStoreNames demo_engine demo_native (Handle IDBTransaction 1) = [''books'']"
    by (simp add: demo_scope_def)
  have h11: "native_get demo_engine demo_native (Handle IDBTransaction 1) (Name ''objectStore'') =
      Fn ''IDBTransaction.prototype.objectStore''"
    by (simp add: demo_methods_def demo_class_def)
  have h12: "native_apply demo_engine (Fn ''IDBTransaction.prototype.objectStore'')
      (Handle IDBTransaction 1) [Str ''books''] demo_native = (Inr (Handle IDBObjectStore 2), demo_native)"
    by (simp add: demo_apply_def demo_scope_def)
  have h13: "native_get demo_engine demo_native (Handle IDBObjectStore 2) (Name ''put'') =
      Fn (''IDBObjectStore.prototype.'' @ ''put'')"
    by (simp add: demo_methods_def demo_class_def)
  have h14: "native_apply demo_engine (Fn (''IDBObjectStore.prototype.'' @ ''put''))
      (Handle IDBObjectStore 2) [Str ''v''] demo_native = (Inr (Handle IDBRequest 11), demo_native)"
    by (simp add: demo_apply_def)
  note t = write_returns_transaction_done[OF h1 h2 h3 h4 h5 h6 h7 h8 h9 h10 h11 h12 h13 h14,
      of 2, unfolded Let_def, folded D]
  let ?r = "call demo_engine (Func 2 (WriteMethod ''put'')) demo_db [Str ''books'', Str ''v''] ?s"
  from t obtain pd where
    a: "fst ?r = Inr (Promise pd)" and b: "promises (snd ?r) pd = Some (Pending, [])"
    and c: "\<forall>t ty n''. \<not> (t = Handle IDBTransaction 1 \<and> ty \<in> {''complete'', ''error'', ''abort''}) \<longrightarrow>
        promises (snd (dispatchEvent demo_engine t ty ((snd ?r)\<lparr>native := n''\<rparr>))) pd =
          Some (Pending, [])"
    and d: "\<forall>n''. promises (snd (dispatchEvent demo_engine (Handle IDBTransaction 1) ''complete''
        ((snd ?r)\<lparr>native := n''\<rparr>))) pd = Some (Fulfilled Undefined, [])"
    by blast
  from t have e: "fst ?r = Inr (weak_get (transactionDoneMap (snd ?r)) (Handle IDBTransaction 1))"
    by blast
  have ev: "fst ?r = Inr (Promise 4)"
    by (simp add: write_method_def demo_write_state_eq demo_eval)
  have pd: "pd = 4" using a ev by simp
  have g: "fst (js_get demo_engine demo_db (Name ''put'') demo_db_state) =
      Inr (Func 2 (WriteMethod ''put''))"
    unfolding demo_put_method by simp
  have ne: "\<not> (Handle IDBRequest 11 = Handle IDBTransaction 1 \<and> ''success'' \<in> {''complete'', ''error'', ''abort''})"
    by simp
  from c ne have c': "promises (snd (dispatchEvent demo_engine (Handle IDBRequest 11) ''success''
      ((snd ?r)\<lparr>native := demo_native(11 := Str ''k'')\<rparr>))) pd = Some (Pending, [])"
    by blast
  from d have d': "promises (snd (dispatchEvent demo_engine (Handle IDBTransaction 1) ''complete''
      ((snd ?r)\<lparr>native := demo_native(11 := Str ''k'')\<rparr>))) pd = Some (Fulfilled Undefined, [])"
    by blast
  show ?thesis using g a b c' d' unfolding pd by blast
qed

end
